theory Spec2Isabelle
  imports Main "HOL-Library.Char_ord" "HOL-Library.List_Lexorder"
begin

section \<open>JavaScript values\<close>

text \<open>
  The primitive values a key or a value of a \<open>SortedList\<close> can be at run time.
  A number is an integer-valued double or \<open>NaN\<close> (the list only compares numbers and
  tests them for truthiness); a string is its sequence of code units. Objects are
  outside this model.
\<close>

datatype jsval = JUndefined | JNull | JBool bool | JNum int | JNaN | JStr string

text \<open>\<open>!x\<close> is \<open>\<not> truthy x\<close>: the falsy values are undefined, null, false, 0, NaN and ''.\<close>

fun truthy :: "jsval \<Rightarrow> bool" where
  "truthy JUndefined = False"
| "truthy JNull = False"
| "truthy (JBool b) = b"
| "truthy (JNum n) = (n \<noteq> 0)"
| "truthy JNaN = False"
| "truthy (JStr s) = (s \<noteq> [])"

text \<open>
  \<open>ToNumber\<close> of the language, with \<open>None\<close> for NaN. The conversion of a string to a
  number is the language's \<open>StringToNumber\<close>, taken as the parameter \<open>s2n\<close>.
\<close>

fun ToNumber :: "(string \<Rightarrow> int option) \<Rightarrow> jsval \<Rightarrow> int option" where
  "ToNumber s2n JUndefined = None"
| "ToNumber s2n JNull = Some 0"
| "ToNumber s2n (JBool b) = Some (if b then 1 else 0)"
| "ToNumber s2n (JNum n) = Some n"
| "ToNumber s2n JNaN = None"
| "ToNumber s2n (JStr s) = s2n s"

text \<open>
  \<open>x < y\<close> of the language: two strings are compared by code units, any other pair
  as numbers, and a comparison with NaN is false. \<open>x > y\<close> is \<open>js_lt y x\<close>.
\<close>

fun js_lt :: "(string \<Rightarrow> int option) \<Rightarrow> jsval \<Rightarrow> jsval \<Rightarrow> bool" where
  "js_lt s2n (JStr a) (JStr b) = (a < b)"
| "js_lt s2n x y =
     (case ToNumber s2n x of None \<Rightarrow> False
      | Some a \<Rightarrow> (case ToNumber s2n y of None \<Rightarrow> False | Some b \<Rightarrow> a < b))"

section \<open>SortedList (numbers.ts)\<close>

datatype error = Error string

text \<open>
  A comparator is a function that returns a number, of which the list reads the sign
  only; it is taken to return an integer and not to throw.
\<close>

type_synonym comparator_fn = "jsval \<Rightarrow> jsval \<Rightarrow> int"

text \<open>The type of \<open>Arrays.binarySearch\<close>, which the lookups call.\<close>

type_synonym search_fn = "jsval list \<Rightarrow> jsval \<Rightarrow> comparator_fn \<Rightarrow> int"

record SortedList =
  keys :: "jsval list"
  values' :: "jsval list"
  comparator :: comparator_fn

definition DEFAULT_COMPARATOR :: "(string \<Rightarrow> int option) \<Rightarrow> comparator_fn" where
  "DEFAULT_COMPARATOR s2n first second =
     (if js_lt s2n first second then - 1 else if js_lt s2n second first then 1 else 0)"

text \<open>The constructor: \<open>comparator || SortedList.DEFAULT_COMPARATOR\<close>.\<close>

definition new_SortedList :: "(string \<Rightarrow> int option) \<Rightarrow> comparator_fn option \<Rightarrow> SortedList" where
  "new_SortedList s2n c =
     \<lparr>keys = [], values' = [],
      comparator = (case c of None \<Rightarrow> DEFAULT_COMPARATOR s2n | Some f \<Rightarrow> f)\<rparr>"

definition count_SortedList :: "SortedList \<Rightarrow> int" where
  "count_SortedList sl = int (length (keys sl))"

text \<open>Reading \<open>xs[i]\<close>: undefined outside the array.\<close>

definition array_get :: "jsval list \<Rightarrow> int \<Rightarrow> jsval" where
  "array_get xs i = (if 0 \<le> i \<and> nat i < length xs then xs ! nat i else JUndefined)"

text \<open>
  \<open>xs.splice(start, deleteCount, ...items)\<close> for a start that is not negative:
  start and deleteCount are clamped to the array, as \<open>take\<close> and \<open>drop\<close> do. The
  result is taken to fit an array, which has at most \<open>2^32 - 1\<close> elements.
\<close>

definition array_splice :: "'a list \<Rightarrow> nat \<Rightarrow> nat \<Rightarrow> 'a list \<Rightarrow> 'a list" where
  "array_splice xs start deleteCount items = take start xs @ items @ drop (start + deleteCount) xs"

definition getValueByIndex :: "SortedList \<Rightarrow> int \<Rightarrow> jsval" where
  "getValueByIndex sl index =
     (if 0 \<le> index \<and> index < int (length (values' sl)) then array_get (values' sl) index
      else JNull)"

definition getKey :: "SortedList \<Rightarrow> int \<Rightarrow> jsval" where
  "getKey sl index =
     (if 0 \<le> index \<and> index < int (length (keys sl)) then array_get (keys sl) index
      else JNull)"

definition indexOfKey :: "search_fn \<Rightarrow> SortedList \<Rightarrow> jsval \<Rightarrow> error + int" where
  "indexOfKey bsearch sl key =
     (if \<not> truthy key then Inl (Error ''Key must be defined.'')
      else Inr (max (- 1) (bsearch (keys sl) key (comparator sl))))"

definition getValue :: "search_fn \<Rightarrow> SortedList \<Rightarrow> jsval \<Rightarrow> error + jsval" where
  "getValue bsearch sl key =
     (if \<not> truthy key then Inl (Error ''Key must be defined.'')
      else case indexOfKey bsearch sl key of
             Inl e \<Rightarrow> Inl e
           | Inr i \<Rightarrow> if i \<ge> 0 then Inr (array_get (values' sl) i) else Inr JNull)"

text \<open>The \<open>while\<close> loop of \<open>add\<close>, from \<open>position\<close> on.\<close>

function add_loop :: "comparator_fn \<Rightarrow> jsval \<Rightarrow> jsval list \<Rightarrow> nat \<Rightarrow> nat" where
  "add_loop c key ks position =
     (if position < length ks \<and> c key (ks ! position) > 0
      then add_loop c key ks (position + 1) else position)"
  by pat_completeness auto
termination
  by (relation "measure (\<lambda>(c, key, ks, position). length ks - position)") auto

declare add_loop.simps [simp del]

definition add :: "SortedList \<Rightarrow> jsval \<Rightarrow> jsval \<Rightarrow> error + SortedList" where
  "add sl key val =
     (if \<not> truthy key \<or> \<not> truthy val then Inl (Error ''Key and value must be defined.'')
      else let position = add_loop (comparator sl) key (keys sl) 0
           in Inr (sl\<lparr>keys := array_splice (keys sl) position 0 [key],
                      values' := array_splice (values' sl) position 0 [val]\<rparr>))"

definition remove_key :: "search_fn \<Rightarrow> SortedList \<Rightarrow> jsval \<Rightarrow> error + (bool \<times> SortedList)" where
  "remove_key bsearch sl key =
     (if \<not> truthy key then Inl (Error ''Key must be defined.'')
      else case indexOfKey bsearch sl key of
             Inl e \<Rightarrow> Inl e
           | Inr i \<Rightarrow>
               if i \<ge> 0
               then Inr (True, sl\<lparr>values' := array_splice (values' sl) (nat i) 1 [],
                                  keys := array_splice (keys sl) (nat i) 1 []\<rparr>)
               else Inr (False, sl))"

subsection \<open>Sequences of operations\<close>

datatype operation = Add jsval jsval | Remove jsval

text \<open>
  One call on the list. A call that throws does so before it changes anything, so
  the list is then the one before the call.
\<close>

fun apply_op :: "search_fn \<Rightarrow> SortedList \<Rightarrow> operation \<Rightarrow> SortedList" where
  "apply_op bsearch sl (Add k v) = (case add sl k v of Inl e \<Rightarrow> sl | Inr sl' \<Rightarrow> sl')"
| "apply_op bsearch sl (Remove k) =
     (case remove_key bsearch sl k of Inl e \<Rightarrow> sl | Inr (b, sl') \<Rightarrow> sl')"

definition run_ops :: "search_fn \<Rightarrow> SortedList \<Rightarrow> operation list \<Rightarrow> SortedList" where
  "run_ops bsearch sl ops = foldl (apply_op bsearch) sl ops"

subsection \<open>Three-way comparators and sortedness\<close>

text \<open>
  A three-way comparator on the keys \<open>K\<close>: the sign of \<open>c a b\<close> is opposite to the sign
  of \<open>c b a\<close>, and "not greater" is transitive.
\<close>

definition three_way_on :: "jsval set \<Rightarrow> comparator_fn \<Rightarrow> bool" where
  "three_way_on K c \<longleftrightarrow>
     (\<forall>a\<in>K. \<forall>b\<in>K. (c a b > 0 \<longleftrightarrow> c b a < 0))
     \<and> (\<forall>a\<in>K. \<forall>b\<in>K. \<forall>d\<in>K. c a b \<le> 0 \<and> c b d \<le> 0 \<longrightarrow> c a d \<le> 0)"

text \<open>The keys are sorted non-decreasingly with respect to the comparator.\<close>

definition sorted_by :: "comparator_fn \<Rightarrow> jsval list \<Rightarrow> bool" where
  "sorted_by c ks = sorted_wrt (\<lambda>a b. c a b \<le> 0) ks"

text \<open>Every key that the operations add is in \<open>K\<close>.\<close>

definition add_keys_in :: "jsval set \<Rightarrow> operation list \<Rightarrow> bool" where
  "add_keys_in K ops \<longleftrightarrow> (\<forall>k v. Add k v \<in> set ops \<longrightarrow> k \<in> K)"

subsection \<open>Arrays.binarySearch\<close>

text \<open>
  Modelled from the spec: \<open>Arrays.binarySearch\<close> of \<open>vs/base/common/arrays\<close>, which
  \<open>indexOfKey\<close> calls and which is not among the sources. The specification describes
  the lookup as an O(log n) binary search of the key in the sorted keys array;
  \<open>indexOfKey\<close> takes \<open>Math.max(-1, ...)\<close> of its result, so a search that fails
  returns a negative number. The search halves the interval \<open>[low, high]\<close>, compares
  the middle element with the key by the comparator, returns the index of an element
  that compares equal, and \<open>-(low + 1)\<close> when the interval is empty.
\<close>

function binarySearch_loop :: "jsval list \<Rightarrow> jsval \<Rightarrow> comparator_fn \<Rightarrow> int \<Rightarrow> int \<Rightarrow> int" where
  "binarySearch_loop array key c low high =
     (if low \<le> high
      then (let mid = (low + high) div 2;
                comp = c (array_get array mid) key
            in if comp < 0 then binarySearch_loop array key c (mid + 1) high
               else if comp > 0 then binarySearch_loop array key c low (mid - 1)
               else mid)
      else - (low + 1))"
  by pat_completeness auto
termination
  by (relation "measure (\<lambda>(array, key, c, low, high). nat (high - low + 1))") auto

declare binarySearch_loop.simps [simp del]

text \<open>Modelled from the spec: \<open>Arrays.binarySearch(array, key, comparator)\<close> searches the whole array.\<close>

definition binarySearch :: search_fn where
  "binarySearch array key c = binarySearch_loop array key c 0 (int (length array) - 1)"

text \<open>
  What a search result \<open>r\<close> means: either it is the index of a key that compares equal
  to \<open>key\<close>, or it is negative and no key of the array compares equal to \<open>key\<close>.
\<close>

definition found_at :: "comparator_fn \<Rightarrow> jsval list \<Rightarrow> jsval \<Rightarrow> int \<Rightarrow> bool" where
  "found_at c ks key r \<longleftrightarrow>
     (0 \<le> r \<and> r < int (length ks) \<and> c (ks ! nat r) key = 0)
     \<or> (r < 0 \<and> (\<forall>x\<in>set ks. c x key \<noteq> 0))"

text \<open>A key is present when some key of the list compares equal to it.\<close>

definition key_present :: "SortedList \<Rightarrow> jsval \<Rightarrow> bool" where
  "key_present sl key \<longleftrightarrow> (\<exists>x\<in>set (keys sl). comparator sl x key = 0)"

section \<open>count and countToArray (numbers.ts)\<close>

text \<open>
  A number of the language is a double. The integers among the doubles are modelled
  by \<open>int\<close>; arithmetic on them gives the exact result rounded to the nearest double,
  ties to even: every integer of magnitude at most \<open>2^53\<close> is a double, and above that
  a double has 53 significant bits. (Results of magnitude \<open>2^1024\<close> and more, which are
  infinite in the language, are outside this model.)
\<close>

text \<open>The number of bits of a positive integer.\<close>

function bit_length :: "int \<Rightarrow> nat" where
  "bit_length n = (if n \<le> 0 then 0 else Suc (bit_length (n div 2)))"
  by pat_completeness auto
termination
  by (relation "measure nat") auto

declare bit_length.simps [simp del]

definition round_to_double :: "int \<Rightarrow> int" where
  "round_to_double x =
     (if \<bar>x\<bar> \<le> 2 ^ 53 then x
      else let e = bit_length \<bar>x\<bar> - 53;
               q = \<bar>x\<bar> div 2 ^ e;
               r = \<bar>x\<bar> mod 2 ^ e;
               q' = (if r > 2 ^ (e - 1) \<or> (r = 2 ^ (e - 1) \<and> odd q) then q + 1 else q)
           in sgn x * (q' * 2 ^ e))"

text \<open>\<open>a + b\<close> and \<open>a - b\<close> of the language, on integers.\<close>

definition js_add :: "int \<Rightarrow> int \<Rightarrow> int" where
  "js_add a b = round_to_double (a + b)"

definition js_sub :: "int \<Rightarrow> int \<Rightarrow> int" where
  "js_sub a b = round_to_double (a - b)"

text \<open>
  Calling \<open>undefined\<close> as a function throws a TypeError; growing an array beyond its
  greatest length throws a RangeError.
\<close>

datatype call_error = TypeError | RangeError

text \<open>
  A callback changes the state of the program, here a value of type \<open>'s\<close>, or throws.
\<close>

type_synonym 's NumberCallback = "int \<Rightarrow> 's \<Rightarrow> call_error + 's"

text \<open>
  The \<open>for\<close> loop of \<open>count\<close>, from the index \<open>i\<close> on. An exception of the callback ends
  the loop. The loop need not end: the result \<open>None\<close> is a loop that runs forever.
\<close>

partial_function (option) count_loop ::
  "(int \<Rightarrow> int \<Rightarrow> bool) \<Rightarrow> (int \<Rightarrow> int) \<Rightarrow> 's NumberCallback option
     \<Rightarrow> int \<Rightarrow> int \<Rightarrow> 's \<Rightarrow> (call_error + 's) option" where
  "count_loop cmp op callback i to s =
     (if cmp i to
      then (case callback of
              None \<Rightarrow> Some (Inl TypeError)
            | Some f \<Rightarrow>
                (case f i s of
                   Inl e \<Rightarrow> Some (Inl e)
                 | Inr s' \<Rightarrow> count_loop cmp op callback (op i) to s'))
      else Some (Inr s))"

text \<open>
  \<open>count(fromOrTo, toOrCallback, callback)\<close>. The tests \<open>types.isNumber\<close> and
  \<open>types.isUndefined\<close> (of \<open>vs/base/common/types\<close>, not among the sources) are the case
  distinctions on the argument: a number or a callback, a number or undefined.
\<close>

definition count ::
  "int \<Rightarrow> int + 's NumberCallback \<Rightarrow> 's NumberCallback option \<Rightarrow> 's \<Rightarrow> (call_error + 's) option" where
  "count fromOrTo toOrCallback callback s =
     (let (from, to, callback) =
            (case toOrCallback of
               Inl n \<Rightarrow> (fromOrTo, n, callback)
             | Inr f \<Rightarrow> (0, fromOrTo, Some f));
          op = (if from \<le> to then (\<lambda>i. js_add i 1) else (\<lambda>i. js_sub i 1));
          cmp = (if from \<le> to then (\<lambda>a b. a < b) else (\<lambda>a b. a > b))
      in count_loop cmp op callback from to s)"

text \<open>
  \<open>xs.push(x)\<close>: an array has at most \<open>2^32 - 1\<close> elements, and \<open>push\<close> on an array of that
  length throws a RangeError.
\<close>

definition array_push :: "'a list \<Rightarrow> 'a \<Rightarrow> call_error + 'a list" where
  "array_push xs x = (if int (length xs) < 2 ^ 32 - 1 then Inr (xs @ [x]) else Inl RangeError)"

definition countToArray :: "int \<Rightarrow> int option \<Rightarrow> (call_error + int list) option" where
  "countToArray fromOrTo to =
     (let fn = (\<lambda>i result. array_push result i)
      in case to of
           None \<Rightarrow> count fromOrTo (Inr fn) None []
         | Some t \<Rightarrow> count fromOrTo (Inl t) (Some fn) [])"

section \<open>Language-feature providers\<close>

text \<open>
  The registries of language-feature providers and the merging of their results are
  in the editor (\<open>vs/editor/contrib/...\<close>, \<open>extHostLanguageFeatures\<close>), of which only the
  tests are among the sources. A provider is an externally supplied callable: for a
  request it returns a list of results (a single result is a list of one) or throws.
\<close>

type_synonym ('q, 'r) provider = "'q \<Rightarrow> error + 'r list"

text \<open>The providers registered for one selector, in the order of registration.\<close>

type_synonym ('q, 'r) registry = "('q, 'r) provider list"

text \<open>
  Modelled from the spec: registration, absent from the sources; a registry
  "aggregates zero or more externally supplied callables", and the new one is the
  most recently registered.
\<close>

definition register_provider :: "('q, 'r) registry \<Rightarrow> ('q, 'r) provider \<Rightarrow> ('q, 'r) registry" where
  "register_provider reg p = reg @ [p]"

text \<open>Modelled from the spec: a failing provider (absent from the sources) is one whose callable throws.\<close>

definition provider_fails :: "('q, 'r) provider \<Rightarrow> 'q \<Rightarrow> bool" where
  "provider_fails p q = (case p q of Inl e \<Rightarrow> True | Inr rs \<Rightarrow> False)"

text \<open>
  Modelled from the spec: what one provider contributes (absent from the sources);
  "a failing provider's result is dropped".
\<close>

definition provider_results :: "('q, 'r) provider \<Rightarrow> 'q \<Rightarrow> 'r list" where
  "provider_results p q = (case p q of Inl e \<Rightarrow> [] | Inr rs \<Rightarrow> rs)"

text \<open>
  Modelled from the spec: the aggregation (absent from the sources) merges the
  providers' results for the same request, "preserving most-recently-registered-first
  ordering" and "tolerating callable failures by excluding only the failing result".
\<close>

definition merged_results :: "('q, 'r) registry \<Rightarrow> 'q \<Rightarrow> 'r list" where
  "merged_results reg q = concat (map (\<lambda>p. provider_results p q) (rev reg))"

text \<open>
  The providers of the tests 'Definition, evil provider' and 'Definition, registration
  order': one throws, one returns the location 'first', one the location 'second'.
\<close>

definition evil_provider :: "(unit, string) provider" where
  "evil_provider q = Inl (Error ''evil provider'')"

definition first_provider :: "(unit, string) provider" where
  "first_provider q = Inr [''first'']"

definition second_provider :: "(unit, string) provider" where
  "second_provider q = Inr [''second'']"

section \<open>Example lists\<close>

text \<open>
  A list with the default comparator and number keys, after three successful calls of
  \<open>add\<close>, one of \<open>remove\<close>, and one call of \<open>add\<close> that throws.
\<close>

definition example_ops :: "operation list" where
  "example_ops = [Add (JNum 3) (JStr ''c''), Add (JNum 1) (JStr ''a''),
                  Add (JNum 2) (JStr ''b''), Remove (JNum 3), Add (JNum 0) (JStr ''z'')]"

definition example_list :: SortedList where
  "example_list = run_ops binarySearch (new_SortedList (\<lambda>s. None) None) example_ops"

text \<open>
  A list with the default comparator whose keys are numbers and a string: the keys
  1, 'a' and 2 are added, then 'a' is removed. No string but 'a' is ever converted to
  a number, and 'a' converts to NaN.
\<close>

definition mixed_ops :: "operation list" where
  "mixed_ops = [Add (JNum 1) (JStr ''x''), Add (JStr ''a'') (JStr ''y''),
                Add (JNum 2) (JStr ''z''), Remove (JStr ''a'')]"

definition mixed_list :: SortedList where
  "mixed_list = run_ops binarySearch (new_SortedList (\<lambda>s. None) None) mixed_ops"

section \<open>Properties of SortedList\<close>

lemma length_splice_insert: "p \<le> length xs \<Longrightarrow> length (array_splice xs p 0 [x]) = Suc (length xs)"
  by (simp add: array_splice_def)

lemma add_loop_step:
  "position < length ks \<Longrightarrow> c key (ks ! position) > 0 \<Longrightarrow>
   add_loop c key ks position = add_loop c key ks (Suc position)"
  by (subst add_loop.simps) simp

lemma add_loop_stop:
  "position \<ge> length ks \<or> c key (ks ! position) \<le> 0 \<Longrightarrow> add_loop c key ks position = position"
  by (subst add_loop.simps) auto

lemma add_loop_le: "position \<le> length ks \<Longrightarrow> add_loop c key ks position \<le> length ks"
proof (induction c key ks position rule: add_loop.induct)
  case (1 c key ks position)
  show ?case
  proof (cases "position < length ks \<and> c key (ks ! position) > 0")
    case True
    then have "add_loop c key ks (position + 1) \<le> length ks"
      by (intro "1.IH") simp_all
    then show ?thesis using True by (simp add: add_loop_step)
  next
    case False
    then have "add_loop c key ks position = position"
      by (intro add_loop_stop) auto
    then show ?thesis using "1.prems" by simp
  qed
qed

lemma add_lengths:
  assumes "add sl k v = Inr sl'" and "length (keys sl) = length (values' sl)"
  shows "length (keys sl') = Suc (length (keys sl)) \<and> length (values' sl') = Suc (length (keys sl))"
proof -
  let ?p = "add_loop (comparator sl) k (keys sl) 0"
  have p: "?p \<le> length (keys sl)" by (rule add_loop_le) simp
  from assms(1) have sl': "sl' = sl\<lparr>keys := array_splice (keys sl) ?p 0 [k],
                                     values' := array_splice (values' sl) ?p 0 [v]\<rparr>"
    by (auto simp: add_def Let_def split: if_splits)
  show ?thesis using p assms(2) by (simp add: sl' length_splice_insert)
qed

lemma remove_key_lengths:
  assumes "remove_key bsearch sl k = Inr (b, sl')" and "length (keys sl) = length (values' sl)"
  shows "length (keys sl') = length (values' sl')"
  using assms
  by (auto simp: remove_key_def indexOfKey_def array_splice_def split: if_splits)

lemma apply_op_lengths:
  "length (keys sl) = length (values' sl) \<Longrightarrow>
   length (keys (apply_op bsearch sl x)) = length (values' (apply_op bsearch sl x))"
proof (cases x)
  case (Add k v)
  assume "length (keys sl) = length (values' sl)"
  then show ?thesis using Add add_lengths [of sl k v]
    by (auto split: sum.splits)
next
  case (Remove k)
  assume "length (keys sl) = length (values' sl)"
  then show ?thesis using Remove remove_key_lengths [of bsearch sl k]
    by (auto split: sum.splits prod.splits)
qed

lemma foldl_apply_op_lengths:
  "length (keys sl) = length (values' sl) \<Longrightarrow>
   length (keys (foldl (apply_op bsearch) sl ops)) = length (values' (foldl (apply_op bsearch) sl ops))"
  by (induction ops arbitrary: sl) (simp_all add: apply_op_lengths)

lemma add_loop_takeWhile:
  "position \<le> length ks \<Longrightarrow>
   add_loop c key ks position = position + length (takeWhile (\<lambda>x. c key x > 0) (drop position ks))"
proof (induction c key ks position rule: add_loop.induct)
  case (1 c key ks position)
  show ?case
  proof (cases "position < length ks \<and> c key (ks ! position) > 0")
    case True
    then have d: "drop position ks = ks ! position # drop (Suc position) ks"
      by (simp add: Cons_nth_drop_Suc)
    have "add_loop c key ks (position + 1)
            = position + 1 + length (takeWhile (\<lambda>x. c key x > 0) (drop (position + 1) ks))"
      using True by (intro "1.IH") simp_all
    then show ?thesis using True by (simp add: add_loop_step d)
  next
    case False
    then have stop: "add_loop c key ks position = position"
      by (intro add_loop_stop) auto
    show ?thesis
    proof (cases "position < length ks")
      case True
      then have d: "drop position ks = ks ! position # drop (Suc position) ks"
        by (simp add: Cons_nth_drop_Suc)
      show ?thesis using False True by (simp add: stop d)
    next
      case False
      then show ?thesis by (simp add: stop)
    qed
  qed
qed

lemma add_position:
  "add_loop c key ks 0 = length (takeWhile (\<lambda>x. c key x > 0) ks)"
  using add_loop_takeWhile [of 0 ks c key] by simp

lemma splice_insert_takeWhile:
  "array_splice ks (length (takeWhile P ks)) 0 [x] = takeWhile P ks @ x # dropWhile P ks"
  by (simp add: array_splice_def takeWhile_eq_take [symmetric] dropWhile_eq_drop [symmetric])

lemma three_way_on_flip:
  "three_way_on K c \<Longrightarrow> a \<in> K \<Longrightarrow> b \<in> K \<Longrightarrow> c a b > 0 \<Longrightarrow> c b a < 0"
  unfolding three_way_on_def by blast

lemma three_way_on_flip':
  "three_way_on K c \<Longrightarrow> a \<in> K \<Longrightarrow> b \<in> K \<Longrightarrow> c a b < 0 \<Longrightarrow> c b a > 0"
  unfolding three_way_on_def by blast

lemma three_way_on_trans:
  "three_way_on K c \<Longrightarrow> a \<in> K \<Longrightarrow> b \<in> K \<Longrightarrow> d \<in> K \<Longrightarrow>
   c a b \<le> 0 \<Longrightarrow> c b d \<le> 0 \<Longrightarrow> c a d \<le> 0"
  unfolding three_way_on_def by blast

lemma sorted_by_insert:
  assumes tw: "three_way_on K c" and s: "sorted_by c ks" and K: "set ks \<subseteq> K" "key \<in> K"
  shows "sorted_by c (takeWhile (\<lambda>x. c key x > 0) ks @ key # dropWhile (\<lambda>x. c key x > 0) ks)"
proof -
  let ?P = "\<lambda>x. c key x > 0"
  let ?R = "\<lambda>a b. c a b \<le> 0"
  have "sorted_wrt ?R (takeWhile ?P ks @ dropWhile ?P ks)"
    using s by (simp add: sorted_by_def)
  then have st: "sorted_wrt ?R (takeWhile ?P ks)" and sd: "sorted_wrt ?R (dropWhile ?P ks)"
    and cross: "\<forall>x\<in>set (takeWhile ?P ks). \<forall>y\<in>set (dropWhile ?P ks). c x y \<le> 0"
    unfolding sorted_wrt_append by blast+
  have before: "c x key \<le> 0" if "x \<in> set (takeWhile ?P ks)" for x
  proof -
    from that have "c key x > 0" by (rule set_takeWhileD [THEN conjunct2])
    moreover from that have "x \<in> set ks" by (rule set_takeWhileD [THEN conjunct1])
    then have "x \<in> K" using K(1) by blast
    ultimately have "c x key < 0" using tw K(2) by (intro three_way_on_flip)
    then show ?thesis by simp
  qed
  have after: "c key y \<le> 0" if "y \<in> set (dropWhile ?P ks)" for y
  proof (cases "dropWhile ?P ks")
    case Nil
    with that show ?thesis by simp
  next
    case (Cons h t)
    have "\<not> ?P (hd (dropWhile ?P ks))"
      by (rule hd_dropWhile) (simp add: Cons)
    then have h: "c key h \<le> 0" by (simp add: Cons)
    have "h \<in> set (dropWhile ?P ks)" by (simp add: Cons)
    then have hK: "h \<in> K" using K(1) set_dropWhileD by fastforce
    have yK: "y \<in> K" using that K(1) set_dropWhileD by fastforce
    have "c h y \<le> 0 \<or> y = h"
      using sd that by (auto simp: Cons)
    then show ?thesis
    proof
      assume "c h y \<le> 0"
      with h show ?thesis using tw K(2) hK yK by (intro three_way_on_trans [of K c key h y])
    next
      assume "y = h"
      with h show ?thesis by simp
    qed
  qed
  show ?thesis
    unfolding sorted_by_def sorted_wrt_append using st sd cross before after
    by simp
qed

lemma sorted_by_delete:
  assumes "sorted_by c ks"
  shows "sorted_by c (array_splice ks i 1 [])"
proof -
  let ?R = "\<lambda>a b. c a b \<le> 0"
  have "sorted_wrt ?R (take i ks @ drop i ks)"
    using assms by (simp add: sorted_by_def)
  then have cross: "\<forall>x\<in>set (take i ks). \<forall>y\<in>set (drop i ks). c x y \<le> 0"
    and t: "sorted_wrt ?R (take i ks)"
    unfolding sorted_wrt_append by blast+
  have sub: "set (drop (Suc i) ks) \<subseteq> set (drop i ks)"
    by (rule set_drop_subset_set_drop) simp
  have d: "sorted_wrt ?R (drop (Suc i) ks)"
    using assms by (simp add: sorted_by_def sorted_wrt_drop)
  have "sorted_wrt ?R (take i ks @ drop (Suc i) ks)"
    unfolding sorted_wrt_append using t d cross sub by blast
  then show ?thesis
    by (simp add: sorted_by_def array_splice_def)
qed

lemma add_result:
  assumes "add sl k v = Inr sl'"
  shows "keys sl' = takeWhile (\<lambda>x. comparator sl k x > 0) (keys sl) @ k
                      # dropWhile (\<lambda>x. comparator sl k x > 0) (keys sl)"
    and "comparator sl' = comparator sl" and "truthy k" and "truthy v"
proof -
  let ?p = "add_loop (comparator sl) k (keys sl) 0"
  from assms have t: "truthy k \<and> truthy v"
    by (auto simp: add_def split: if_splits)
  from assms have sl': "sl' = sl\<lparr>keys := array_splice (keys sl) ?p 0 [k],
                                     values' := array_splice (values' sl) ?p 0 [v]\<rparr>"
    by (auto simp: add_def Let_def split: if_splits)
  show "keys sl' = takeWhile (\<lambda>x. comparator sl k x > 0) (keys sl) @ k
                      # dropWhile (\<lambda>x. comparator sl k x > 0) (keys sl)"
    by (simp add: sl' add_position splice_insert_takeWhile)
  show "comparator sl' = comparator sl" by (simp add: sl')
  show "truthy k" "truthy v" using t by simp_all
qed

lemma remove_key_result:
  assumes "remove_key bsearch sl k = Inr (b, sl')"
  shows "comparator sl' = comparator sl"
    and "keys sl' = keys sl \<or> (\<exists>i. keys sl' = array_splice (keys sl) i 1 [])"
  using assms
  by (auto simp: remove_key_def indexOfKey_def split: if_splits)

lemma set_splice_delete: "set (array_splice xs i 1 []) \<subseteq> set xs"
proof -
  have "set (take i xs) \<subseteq> set xs" by (rule set_take_subset)
  moreover have "set (drop (i + 1) xs) \<subseteq> set xs" by (rule set_drop_subset)
  ultimately show ?thesis by (simp add: array_splice_def)
qed

lemma apply_op_comparator: "comparator (apply_op bsearch sl x) = comparator sl"
proof (cases x)
  case (Add k v)
  then show ?thesis using add_result(2) [of sl k v] by (auto split: sum.splits)
next
  case (Remove k)
  then show ?thesis using remove_key_result(1) [of bsearch sl k]
    by (auto split: sum.splits prod.splits)
qed

lemma apply_op_sorted:
  assumes tw: "three_way_on K (comparator sl)"
    and s: "sorted_by (comparator sl) (keys sl)" and K: "set (keys sl) \<subseteq> K"
    and x: "\<And>k v. x = Add k v \<Longrightarrow> k \<in> K"
  shows "sorted_by (comparator sl) (keys (apply_op bsearch sl x)) \<and> set (keys (apply_op bsearch sl x)) \<subseteq> K"
proof (cases x)
  case (Add k v)
  show ?thesis
  proof (cases "add sl k v")
    case (Inl e)
    then show ?thesis using Add s K by simp
  next
    case (Inr sl')
    have kK: "k \<in> K" using x Add by simp
    let ?P = "\<lambda>x. comparator sl k x > 0"
    have ks: "keys sl' = takeWhile ?P (keys sl) @ k # dropWhile ?P (keys sl)"
      using Inr by (rule add_result(1))
    have "sorted_by (comparator sl) (keys sl')"
      unfolding ks using tw s K kK by (rule sorted_by_insert)
    moreover have "set (keys sl') \<subseteq> K"
    proof -
      have "set (takeWhile ?P (keys sl)) \<subseteq> set (keys sl)"
        by (auto dest: set_takeWhileD)
      moreover have "set (dropWhile ?P (keys sl)) \<subseteq> set (keys sl)"
        by (auto dest: set_dropWhileD)
      ultimately show ?thesis using K kK unfolding ks by auto
    qed
    ultimately show ?thesis using Add Inr by simp
  qed
next
  case (Remove k)
  show ?thesis
  proof (cases "remove_key bsearch sl k")
    case (Inl e)
    then show ?thesis using Remove s K by simp
  next
    case (Inr r)
    obtain b sl' where r: "r = (b, sl')" by (cases r)
    have res: "remove_key bsearch sl k = Inr (b, sl')" using Inr r by simp
    from remove_key_result(2) [OF res]
    have "sorted_by (comparator sl) (keys sl') \<and> set (keys sl') \<subseteq> K"
    proof
      assume "keys sl' = keys sl"
      then show ?thesis using s K by simp
    next
      assume "\<exists>i. keys sl' = array_splice (keys sl) i 1 []"
      then obtain i where i: "keys sl' = array_splice (keys sl) i 1 []" ..
      have "sorted_by (comparator sl) (array_splice (keys sl) i 1 [])"
        using s by (rule sorted_by_delete)
      moreover have "set (array_splice (keys sl) i 1 []) \<subseteq> K"
        using set_splice_delete [of "keys sl" i] K by (rule subset_trans)
      ultimately show ?thesis unfolding i by simp
    qed
    then show ?thesis using Remove res by simp
  qed
qed

lemma foldl_apply_op_comparator:
  "comparator (foldl (apply_op bsearch) sl ops) = comparator sl"
  by (induction ops arbitrary: sl) (simp_all add: apply_op_comparator)

lemma foldl_apply_op_sorted:
  "three_way_on K (comparator sl) \<Longrightarrow> sorted_by (comparator sl) (keys sl) \<Longrightarrow>
   set (keys sl) \<subseteq> K \<Longrightarrow> add_keys_in K ops \<Longrightarrow>
   sorted_by (comparator sl) (keys (foldl (apply_op bsearch) sl ops))
   \<and> set (keys (foldl (apply_op bsearch) sl ops)) \<subseteq> K"
proof (induction ops arbitrary: sl)
  case Nil
  then show ?case by simp
next
  case (Cons x xs)
  let ?sl = "apply_op bsearch sl x"
  have c: "comparator ?sl = comparator sl" by (rule apply_op_comparator)
  have x: "\<And>k v. x = Add k v \<Longrightarrow> k \<in> K"
    using Cons.prems(4) by (simp add: add_keys_in_def)
  have step: "sorted_by (comparator sl) (keys ?sl) \<and> set (keys ?sl) \<subseteq> K"
    using Cons.prems(1-3) x by (rule apply_op_sorted)
  have rest: "add_keys_in K xs" using Cons.prems(4) by (simp add: add_keys_in_def)
  have "sorted_by (comparator ?sl) (keys (foldl (apply_op bsearch) ?sl xs))
        \<and> set (keys (foldl (apply_op bsearch) ?sl xs)) \<subseteq> K"
    using Cons.prems(1) step rest by (intro Cons.IH) (simp_all add: c)
  then show ?case by (simp add: c)
qed

lemma DEFAULT_COMPARATOR_JNum:
  "DEFAULT_COMPARATOR s2n (JNum a) (JNum b) \<le> 0 \<longleftrightarrow> a \<le> b"
  "DEFAULT_COMPARATOR s2n (JNum a) (JNum b) < 0 \<longleftrightarrow> a < b"
  "DEFAULT_COMPARATOR s2n (JNum a) (JNum b) > 0 \<longleftrightarrow> b < a"
  "DEFAULT_COMPARATOR s2n (JNum a) (JNum b) = 0 \<longleftrightarrow> a = b"
  by (auto simp: DEFAULT_COMPARATOR_def)

lemma DEFAULT_COMPARATOR_JStr:
  "DEFAULT_COMPARATOR s2n (JStr a) (JStr b) \<le> 0 \<longleftrightarrow> a \<le> b"
  "DEFAULT_COMPARATOR s2n (JStr a) (JStr b) < 0 \<longleftrightarrow> a < b"
  "DEFAULT_COMPARATOR s2n (JStr a) (JStr b) > 0 \<longleftrightarrow> b < a"
  "DEFAULT_COMPARATOR s2n (JStr a) (JStr b) = 0 \<longleftrightarrow> a = b"
  by (auto simp: DEFAULT_COMPARATOR_def)

lemma DEFAULT_COMPARATOR_numbers: "three_way_on (range JNum) (DEFAULT_COMPARATOR s2n)"
proof -
  have "\<forall>a b. (DEFAULT_COMPARATOR s2n (JNum a) (JNum b) > 0) = (DEFAULT_COMPARATOR s2n (JNum b) (JNum a) < 0)"
    by (simp only: DEFAULT_COMPARATOR_JNum) simp
  moreover have "\<forall>a b d. DEFAULT_COMPARATOR s2n (JNum a) (JNum b) \<le> 0 \<and> DEFAULT_COMPARATOR s2n (JNum b) (JNum d) \<le> 0
      \<longrightarrow> DEFAULT_COMPARATOR s2n (JNum a) (JNum d) \<le> 0"
    by (simp only: DEFAULT_COMPARATOR_JNum) auto
  ultimately show ?thesis unfolding three_way_on_def by blast
qed

lemma DEFAULT_COMPARATOR_strings: "three_way_on (range JStr) (DEFAULT_COMPARATOR s2n)"
proof -
  have "\<forall>a b. (DEFAULT_COMPARATOR s2n (JStr a) (JStr b) > 0) = (DEFAULT_COMPARATOR s2n (JStr b) (JStr a) < 0)"
    by (simp only: DEFAULT_COMPARATOR_JStr) simp
  moreover have "\<forall>a b d. DEFAULT_COMPARATOR s2n (JStr a) (JStr b) \<le> 0 \<and> DEFAULT_COMPARATOR s2n (JStr b) (JStr d) \<le> 0
      \<longrightarrow> DEFAULT_COMPARATOR s2n (JStr a) (JStr d) \<le> 0"
    by (simp only: DEFAULT_COMPARATOR_JStr) auto
  ultimately show ?thesis unfolding three_way_on_def by blast
qed

lemma three_way_on_ge:
  assumes "three_way_on K c" "a \<in> K" "b \<in> K" "c a b \<ge> 0"
  shows "c b a \<le> 0"
proof (rule ccontr)
  assume "\<not> c b a \<le> 0"
  then have "c b a > 0" by simp
  with assms(1-3) have "c a b < 0" by (intro three_way_on_flip [of K c b a])
  with assms(4) show False by simp
qed

lemma three_way_on_le_lt:
  assumes tw: "three_way_on K c" and K: "x \<in> K" "y \<in> K" "k \<in> K"
    and xy: "c x y \<le> 0" and yk: "c y k < 0"
  shows "c x k < 0"
proof (rule ccontr)
  assume "\<not> c x k < 0"
  then have "c x k \<ge> 0" by simp
  with tw K have "c k x \<le> 0" by (intro three_way_on_ge [of K c x k])
  with tw K xy have "c k y \<le> 0" by (intro three_way_on_trans [of K c k x y])
  moreover from tw K yk have "c k y > 0" by (intro three_way_on_flip' [of K c y k])
  ultimately show False by simp
qed

lemma three_way_on_gt_le:
  assumes tw: "three_way_on K c" and K: "x \<in> K" "y \<in> K" "k \<in> K"
    and xk: "c x k > 0" and xy: "c x y \<le> 0"
  shows "c y k > 0"
proof (rule ccontr)
  assume "\<not> c y k > 0"
  then have "c y k \<le> 0" by simp
  with tw K xy have "c x k \<le> 0" by (intro three_way_on_trans [of K c x y k])
  with xk show False by simp
qed

lemma sorted_by_nth:
  "sorted_by c ks \<Longrightarrow> i < j \<Longrightarrow> j < length ks \<Longrightarrow> c (ks ! i) (ks ! j) \<le> 0"
  by (simp add: sorted_by_def sorted_wrt_iff_nth_less)

lemma binarySearch_loop_correct:
  "three_way_on K c \<Longrightarrow> sorted_by c ks \<Longrightarrow> set ks \<subseteq> K \<Longrightarrow> key \<in> K \<Longrightarrow>
   0 \<le> low \<Longrightarrow> high < int (length ks) \<Longrightarrow>
   (\<forall>i. i < nat low \<longrightarrow> i < length ks \<longrightarrow> c (ks ! i) key < 0) \<Longrightarrow>
   (\<forall>i. high < int i \<longrightarrow> i < length ks \<longrightarrow> c (ks ! i) key > 0) \<Longrightarrow>
   found_at c ks key (binarySearch_loop ks key c low high)"
proof (induction ks key c low high rule: binarySearch_loop.induct)
  case (1 array key c low high)
  note tw = "1.prems"(1) and s = "1.prems"(2) and K = "1.prems"(3,4)
  note low0 = "1.prems"(5) and high_len = "1.prems"(6)
  note below_low = "1.prems"(7) and above_high = "1.prems"(8)
  show ?case
  proof (cases "low \<le> high")
    case False
    have r: "binarySearch_loop array key c low high = - (low + 1)"
      using False by (subst binarySearch_loop.simps) simp
    have "c x key \<noteq> 0" if "x \<in> set array" for x
    proof -
      from that obtain i where i: "i < length array" "x = array ! i"
        by (auto simp: in_set_conv_nth)
      have "i < nat low \<or> high < int i" using False low0 by linarith
      then show ?thesis using below_low above_high i by force
    qed
    then show ?thesis using low0 by (simp add: r found_at_def)
  next
    case True
    define mid where "mid = (low + high) div 2"
    define comp where "comp = c (array_get array mid) key"
    have mid: "low \<le> mid" "mid \<le> high" using True by (simp_all add: mid_def)
    then have m0: "0 \<le> mid" and mlen: "nat mid < length array"
      using low0 high_len by simp_all
    have get: "array_get array mid = array ! nat mid"
      using m0 mlen by (simp add: array_get_def)
    have inK: "array ! i \<in> K" if "i < length array" for i
      using that K(1) by (auto simp: subset_iff)
    consider (lt) "comp < 0" | (gt) "\<not> comp < 0" "comp > 0" | (eq) "comp = 0" by linarith
    then show ?thesis
    proof cases
      case lt
      have r: "binarySearch_loop array key c low high = binarySearch_loop array key c (mid + 1) high"
        using True lt by (subst binarySearch_loop.simps) (simp add: Let_def mid_def comp_def)
      have below: "\<forall>i. i < nat (mid + 1) \<longrightarrow> i < length array \<longrightarrow> c (array ! i) key < 0"
      proof (intro allI impI)
        fix i assume i: "i < nat (mid + 1)" "i < length array"
        show "c (array ! i) key < 0"
        proof (cases "i = nat mid")
          case True
          then show ?thesis using lt by (simp add: comp_def get)
        next
          case False
          then have "i < nat mid" using i(1) m0 by linarith
          then have "c (array ! i) (array ! nat mid) \<le> 0"
            using s mlen by (intro sorted_by_nth)
          moreover have "c (array ! nat mid) key < 0" using lt by (simp add: comp_def get)
          ultimately show ?thesis
            using tw inK [OF i(2)] inK [OF mlen] K(2)
            by (intro three_way_on_le_lt [of K c "array ! i" "array ! nat mid" key])
        qed
      qed
      have "found_at c array key (binarySearch_loop array key c (mid + 1) high)"
        using True lt m0 high_len above_high below tw s K
        by (intro "1.IH"(1) [of mid comp]) (simp_all add: mid_def comp_def)
      then show ?thesis by (simp add: r)
    next
      case gt
      have r: "binarySearch_loop array key c low high = binarySearch_loop array key c low (mid - 1)"
        using True gt by (subst binarySearch_loop.simps) (simp add: Let_def mid_def comp_def)
      have above: "\<forall>i. mid - 1 < int i \<longrightarrow> i < length array \<longrightarrow> c (array ! i) key > 0"
      proof (intro allI impI)
        fix i assume i: "mid - 1 < int i" "i < length array"
        show "c (array ! i) key > 0"
        proof (cases "i = nat mid")
          case True
          then show ?thesis using gt by (simp add: comp_def get)
        next
          case False
          then have "nat mid < i" using i(1) m0 by linarith
          then have "c (array ! nat mid) (array ! i) \<le> 0"
            using s i(2) by (intro sorted_by_nth)
          moreover have "c (array ! nat mid) key > 0" using gt by (simp add: comp_def get)
          ultimately show ?thesis
            using tw inK [OF i(2)] inK [OF mlen] K(2)
            by (intro three_way_on_gt_le [of K c "array ! nat mid" "array ! i" key])
        qed
      qed
      have "found_at c array key (binarySearch_loop array key c low (mid - 1))"
        using True gt mid mlen m0 low0 below_low above tw s K
        by (intro "1.IH"(2) [of mid comp]) (simp_all add: mid_def comp_def)
      then show ?thesis by (simp add: r)
    next
      case eq
      have r: "binarySearch_loop array key c low high = mid"
        using True eq by (subst binarySearch_loop.simps) (simp add: Let_def mid_def comp_def)
      show ?thesis using eq m0 mlen by (simp add: r found_at_def comp_def get)
    qed
  qed
qed

lemma binarySearch_correct:
  assumes "three_way_on K c" "sorted_by c ks" "set ks \<subseteq> K" "key \<in> K"
  shows "found_at c ks key (binarySearch ks key c)"
  unfolding binarySearch_def using assms
  by (intro binarySearch_loop_correct [of K]) simp_all

text \<open>
  C8. Every list obtained from the constructor by a sequence of \<open>add\<close> and \<open>remove\<close>
  calls, whatever \<open>Arrays.binarySearch\<close> returns, has a keys array and a values array
  of the same length, and \<open>count\<close> is that length.
\<close>

theorem C8_keys_values_same_length:
  "length (keys (run_ops bsearch (new_SortedList s2n c) ops))
     = length (values' (run_ops bsearch (new_SortedList s2n c) ops))
   \<and> count_SortedList (run_ops bsearch (new_SortedList s2n c) ops)
     = int (length (values' (run_ops bsearch (new_SortedList s2n c) ops)))"
proof -
  have "length (keys (new_SortedList s2n c)) = length (values' (new_SortedList s2n c))"
    by (simp add: new_SortedList_def)
  then show ?thesis
    unfolding run_ops_def count_SortedList_def by (simp add: foldl_apply_op_lengths)
qed

lemma reachable_invariants:
  fixes bsearch :: search_fn and s2n :: "string \<Rightarrow> int option"
    and c :: "comparator_fn option" and ops :: "operation list"
  assumes tw: "three_way_on K (comparator (new_SortedList s2n c))" and ops: "add_keys_in K ops"
  defines "sl \<equiv> run_ops bsearch (new_SortedList s2n c) ops"
  shows "comparator sl = comparator (new_SortedList s2n c)"
    and "sorted_by (comparator sl) (keys sl)"
    and "set (keys sl) \<subseteq> K"
    and "length (keys sl) = length (values' sl)"
proof -
  let ?n = "new_SortedList s2n c"
  show c: "comparator sl = comparator ?n"
    unfolding sl_def run_ops_def by (rule foldl_apply_op_comparator)
  have e: "keys ?n = []" "values' ?n = []" by (simp_all add: new_SortedList_def)
  have "sorted_by (comparator ?n) (keys (foldl (apply_op bsearch) ?n ops))
        \<and> set (keys (foldl (apply_op bsearch) ?n ops)) \<subseteq> K"
    using tw ops by (intro foldl_apply_op_sorted) (simp_all add: e sorted_by_def)
  then show "sorted_by (comparator sl) (keys sl)" and "set (keys sl) \<subseteq> K"
    unfolding c unfolding sl_def run_ops_def by simp_all
  show "length (keys sl) = length (values' sl)"
    unfolding sl_def run_ops_def by (rule foldl_apply_op_lengths) (simp add: e)
qed

lemma mixed_list_eq:
  "keys mixed_list = [JNum 2, JNum 1]" "values' mixed_list = [JStr ''z'', JStr ''x'']"
  "comparator mixed_list = DEFAULT_COMPARATOR (\<lambda>s. None)"
  by (simp_all add: mixed_list_def mixed_ops_def run_ops_def new_SortedList_def add_def Let_def
      add_loop.simps array_splice_def remove_key_def indexOfKey_def binarySearch_def
      binarySearch_loop.simps array_get_def DEFAULT_COMPARATOR_def)

lemma mixed_added_eq:
  "keys (run_ops binarySearch (new_SortedList (\<lambda>s. None) None) (butlast mixed_ops))
     = [JNum 2, JStr ''a'', JNum 1]"
  by (simp add: mixed_ops_def run_ops_def new_SortedList_def add_def Let_def
      add_loop.simps array_splice_def DEFAULT_COMPARATOR_def)

lemma mixed_list_lookup:
  "getValue binarySearch mixed_list (JNum 1) = Inr JNull"
  "indexOfKey binarySearch mixed_list (JNum 1) = Inr (- 1)"
  by (simp_all add: getValue_def indexOfKey_def mixed_list_eq binarySearch_def
      binarySearch_loop.simps array_get_def DEFAULT_COMPARATOR_def Let_def)

text \<open>
  C1, as stated, fails. With the default comparator, \<open>1 < 'a'\<close>, \<open>1 > 'a'\<close>, \<open>2 < 'a'\<close> and
  \<open>2 > 'a'\<close> are all false, so the keys 1, 'a', 2 are stored as 2, 'a', 1, and after
  \<open>remove('a')\<close> the keys array is 2, 1.
\<close>

theorem C1_mixed_keys_unsorted:
  "keys (run_ops binarySearch (new_SortedList (\<lambda>s. None) None) (butlast mixed_ops))
     = [JNum 2, JStr ''a'', JNum 1]
   \<and> keys mixed_list = [JNum 2, JNum 1]
   \<and> comparator mixed_list (JNum 2) (JNum 1) > 0
   \<and> \<not> sorted_by (comparator mixed_list) (keys mixed_list)"
  by (simp add: mixed_added_eq mixed_list_eq sorted_by_def DEFAULT_COMPARATOR_def)

text \<open>
  C1, amended. Take a list made by the constructor and any sequence of \<open>add\<close> and
  \<open>remove\<close> calls, whatever \<open>Arrays.binarySearch\<close> returns. If the list's comparator is
  a three-way comparator on the keys that are added, or no comparator was supplied and
  the keys are all numbers or all strings (the default comparator is then one), the
  keys array is sorted non-decreasingly with respect to the list's comparator after
  every call.
\<close>

theorem C1_keys_sorted:
  assumes "three_way_on K (comparator (new_SortedList s2n c))
           \<or> (c = None \<and> (K = range JNum \<or> K = range JStr))"
    and "add_keys_in K ops"
  shows "sorted_by (comparator (run_ops bsearch (new_SortedList s2n c) ops))
           (keys (run_ops bsearch (new_SortedList s2n c) ops))"
proof -
  have "three_way_on K (comparator (new_SortedList s2n c))"
    using assms(1) DEFAULT_COMPARATOR_numbers [of s2n] DEFAULT_COMPARATOR_strings [of s2n]
    by (auto simp: new_SortedList_def)
  then show ?thesis using assms(2) by (rule reachable_invariants(2))
qed

lemma example_list_eq:
  "keys example_list = [JNum 1, JNum 2]" "values' example_list = [JStr ''a'', JStr ''b'']"
  "comparator example_list = DEFAULT_COMPARATOR (\<lambda>s. None)"
  by (simp_all add: example_list_def example_ops_def run_ops_def new_SortedList_def add_def Let_def
      add_loop.simps array_splice_def remove_key_def indexOfKey_def binarySearch_def
      binarySearch_loop.simps array_get_def DEFAULT_COMPARATOR_def)

lemma example_ops_numbers: "add_keys_in (range JNum) example_ops"
  by (auto simp: add_keys_in_def example_ops_def)

text \<open>The example list: its keys are numbers and it has the default comparator.\<close>

theorem C1_keys_sorted_witness:
  "add_keys_in (range JNum) example_ops
   \<and> keys example_list = [JNum 1, JNum 2]
   \<and> sorted_by (comparator example_list) (keys example_list)"
  using C1_keys_sorted [of "range JNum" "\<lambda>s. None" None example_ops binarySearch,
      folded example_list_def] example_ops_numbers
  by (simp add: example_list_eq)

lemma three_way_on_refl: "three_way_on K c \<Longrightarrow> a \<in> K \<Longrightarrow> c a a = 0"
proof -
  assume tw: "three_way_on K c" and a: "a \<in> K"
  have "\<not> c a a > 0" using three_way_on_flip [OF tw a a] by force
  moreover have "\<not> c a a < 0" using three_way_on_flip' [OF tw a a] by force
  ultimately show ?thesis by simp
qed

lemma lookup_cases:
  assumes tw: "three_way_on K (comparator sl)" and s: "sorted_by (comparator sl) (keys sl)"
    and K: "set (keys sl) \<subseteq> K" and len: "length (keys sl) = length (values' sl)"
    and k: "truthy k" "k \<in> K"
  shows "(key_present sl k \<and>
           (\<exists>i<length (keys sl). comparator sl (keys sl ! i) k = 0
              \<and> indexOfKey binarySearch sl k = Inr (int i)
              \<and> getValue binarySearch sl k = Inr (values' sl ! i)))
         \<or> (\<not> key_present sl k \<and> indexOfKey binarySearch sl k = Inr (- 1)
              \<and> getValue binarySearch sl k = Inr JNull)"
proof -
  define r where "r = binarySearch (keys sl) k (comparator sl)"
  have f: "found_at (comparator sl) (keys sl) k r"
    unfolding r_def using tw s K k(2) by (rule binarySearch_correct)
  have idx: "indexOfKey binarySearch sl k = Inr (max (- 1) r)"
    using k(1) by (simp add: indexOfKey_def r_def)
  show ?thesis
  proof (cases "0 \<le> r")
    case True
    with f have r: "r < int (length (keys sl))" "comparator sl (keys sl ! nat r) k = 0"
      by (auto simp: found_at_def)
    have m: "max (- 1) r = int (nat r)" using True by simp
    have "key_present sl k"
      unfolding key_present_def using r True
      by (intro bexI [of _ "keys sl ! nat r"]) simp_all
    moreover have "nat r < length (keys sl)" using r(1) True by simp
    moreover have "getValue binarySearch sl k = Inr (values' sl ! nat r)"
    proof -
      have m': "max (- 1) r = r" using True by simp
      have nr: "nat r < length (values' sl)" using r(1) True len by simp
      have "array_get (values' sl) r = values' sl ! nat r"
        using True nr by (simp add: array_get_def)
      then show ?thesis using k(1) True by (simp add: getValue_def idx m')
    qed
    ultimately show ?thesis using r(2) idx m by auto
  next
    case False
    with f have "\<forall>x\<in>set (keys sl). comparator sl x k \<noteq> 0"
      by (auto simp: found_at_def)
    then have "\<not> key_present sl k" by (simp add: key_present_def)
    moreover have m: "max (- 1) r = - 1" using False by simp
    moreover have "getValue binarySearch sl k = Inr JNull"
      using k(1) by (simp add: getValue_def idx m)
    ultimately show ?thesis using idx by simp
  qed
qed

text \<open>
  C2, as stated, fails: in the list with the keys 2, 1 the key 1 is present, with the
  value 'x', and the binary search misses it, so \<open>getValue(1)\<close> returns null.
\<close>

theorem C2_present_key_not_found:
  "truthy (JNum 1) \<and> JNum 1 \<in> set (keys mixed_list)
   \<and> keys mixed_list ! 1 = JNum 1 \<and> values' mixed_list ! 1 = JStr ''x''
   \<and> getValue binarySearch mixed_list (JNum 1) = Inr JNull"
  by (simp add: mixed_list_eq mixed_list_lookup)

text \<open>
  C2, amended. In a list made by the constructor and a sequence of \<open>add\<close> and \<open>remove\<close>
  calls, with a three-way comparator on the keys that are added, a truthy key \<open>k\<close> that
  is in the keys array is found: \<open>indexOfKey\<close> returns an index \<open>i\<close> whose key compares
  equal to \<open>k\<close>, that key is \<open>k\<close> itself when only \<open>k\<close> compares equal to \<open>k\<close>, and
  \<open>getValue\<close> returns the value stored at the same index \<open>i\<close>.
\<close>

theorem C2_getValue_present:
  fixes s2n :: "string \<Rightarrow> int option" and c :: "comparator_fn option" and ops :: "operation list"
  defines "sl \<equiv> run_ops binarySearch (new_SortedList s2n c) ops"
  assumes tw: "three_way_on K (comparator (new_SortedList s2n c))" and ops: "add_keys_in K ops"
    and k: "truthy k" "k \<in> set (keys sl)"
  shows "\<exists>i<length (keys sl). i < length (values' sl)
           \<and> comparator sl (keys sl ! i) k = 0
           \<and> ((\<forall>x\<in>set (keys sl). comparator sl x k = 0 \<longrightarrow> x = k) \<longrightarrow> keys sl ! i = k)
           \<and> indexOfKey binarySearch sl k = Inr (int i)
           \<and> getValue binarySearch sl k = Inr (values' sl ! i)"
proof -
  note inv = reachable_invariants [OF tw ops, of binarySearch, folded sl_def]
  have tw': "three_way_on K (comparator sl)" using tw inv(1) by simp
  have kK: "k \<in> K" using k(2) inv(3) by blast
  have "comparator sl k k = 0" using tw' kK by (rule three_way_on_refl)
  then have p: "key_present sl k" using k(2) by (auto simp: key_present_def)
  from lookup_cases [OF tw' inv(2) inv(3) inv(4) k(1) kK] p
  obtain i where i: "i < length (keys sl)" "comparator sl (keys sl ! i) k = 0"
      "indexOfKey binarySearch sl k = Inr (int i)"
      "getValue binarySearch sl k = Inr (values' sl ! i)"
    by blast
  have "keys sl ! i \<in> set (keys sl)" using i(1) by simp
  then have "(\<forall>x\<in>set (keys sl). comparator sl x k = 0 \<longrightarrow> x = k) \<longrightarrow> keys sl ! i = k"
    using i(2) by blast
  then show ?thesis using i inv(4) by auto
qed

lemma binarySearch_loop_found:
  "0 \<le> low \<Longrightarrow> high < int (length ks) \<Longrightarrow>
   binarySearch_loop ks key c low high < 0
   \<or> (0 \<le> binarySearch_loop ks key c low high
       \<and> binarySearch_loop ks key c low high < int (length ks)
       \<and> c (ks ! nat (binarySearch_loop ks key c low high)) key = 0)"
proof (induction ks key c low high rule: binarySearch_loop.induct)
  case (1 array key c low high)
  note low0 = "1.prems"(1) and high_len = "1.prems"(2)
  show ?case
  proof (cases "low \<le> high")
    case False
    have "binarySearch_loop array key c low high = - (low + 1)"
      using False by (subst binarySearch_loop.simps) simp
    then show ?thesis using low0 by simp
  next
    case True
    define mid where "mid = (low + high) div 2"
    define comp where "comp = c (array_get array mid) key"
    have mid: "low \<le> mid" "mid \<le> high" using True by (simp_all add: mid_def)
    then have m0: "0 \<le> mid" and mlen: "nat mid < length array"
      using low0 high_len by simp_all
    have get: "array_get array mid = array ! nat mid"
      using m0 mlen by (simp add: array_get_def)
    consider (lt) "comp < 0" | (gt) "\<not> comp < 0" "comp > 0" | (eq) "comp = 0" by linarith
    then show ?thesis
    proof cases
      case lt
      have r: "binarySearch_loop array key c low high = binarySearch_loop array key c (mid + 1) high"
        using True lt by (subst binarySearch_loop.simps) (simp add: Let_def mid_def comp_def)
      show ?thesis
        unfolding r using True lt m0 high_len
        by (intro "1.IH"(1) [of mid comp]) (simp_all add: mid_def comp_def)
    next
      case gt
      have r: "binarySearch_loop array key c low high = binarySearch_loop array key c low (mid - 1)"
        using True gt by (subst binarySearch_loop.simps) (simp add: Let_def mid_def comp_def)
      show ?thesis
        unfolding r using True gt mid mlen m0 low0
        by (intro "1.IH"(2) [of mid comp]) (simp_all add: mid_def comp_def)
    next
      case eq
      have r: "binarySearch_loop array key c low high = mid"
        using True eq by (subst binarySearch_loop.simps) (simp add: Let_def mid_def comp_def)
      show ?thesis using eq m0 mlen by (simp add: r comp_def get)
    qed
  qed
qed

lemma binarySearch_absent:
  assumes "\<forall>x\<in>set ks. c x key \<noteq> 0"
  shows "binarySearch ks key c < 0"
proof -
  let ?r = "binarySearch_loop ks key c 0 (int (length ks) - 1)"
  have "?r < 0 \<or> (0 \<le> ?r \<and> ?r < int (length ks) \<and> c (ks ! nat ?r) key = 0)"
    by (rule binarySearch_loop_found) simp_all
  moreover have "c (ks ! nat ?r) key \<noteq> 0" if "0 \<le> ?r" "?r < int (length ks)"
  proof -
    have "ks ! nat ?r \<in> set ks" using that by (intro nth_mem) simp
    then show ?thesis using assms by blast
  qed
  ultimately show ?thesis unfolding binarySearch_def by blast
qed

lemma key_present_default_numbers:
  assumes "comparator sl = DEFAULT_COMPARATOR s2n" and "set (keys sl) \<subseteq> range JNum"
  shows "key_present sl (JNum n) \<longleftrightarrow> JNum n \<in> set (keys sl)"
proof -
  have "(DEFAULT_COMPARATOR s2n x (JNum n) = 0) = (x = JNum n)" if "x \<in> set (keys sl)" for x
  proof -
    from that assms(2) obtain m where "x = JNum m" by blast
    then show ?thesis by (simp add: DEFAULT_COMPARATOR_JNum)
  qed
  then show ?thesis unfolding key_present_def assms(1) by blast
qed

text \<open>
  C3, as stated, fails when "not present" means "not in the keys array": in the
  example list, with the keys 1 and 2 and the default comparator, the key \<open>true\<close> is
  truthy and not in the keys array, it compares equal to the key 1 (neither \<open>1 < true\<close>
  nor \<open>1 > true\<close>), and the lookup finds the index 0 and the value 'a'.
\<close>

theorem C3_unstored_key_found:
  "truthy (JBool True) \<and> JBool True \<notin> set (keys example_list)
   \<and> keys example_list = [JNum 1, JNum 2]
   \<and> getValue binarySearch example_list (JBool True) = Inr (JStr ''a'')
   \<and> indexOfKey binarySearch example_list (JBool True) = Inr 0"
  by (simp add: getValue_def indexOfKey_def example_list_eq binarySearch_def
      binarySearch_loop.simps array_get_def DEFAULT_COMPARATOR_def Let_def)

text \<open>
  C3, amended. In every list, with any comparator, for a truthy key \<open>k\<close> to which no key
  of the list compares equal, \<open>getValue\<close> returns null and \<open>indexOfKey\<close> returns -1.
\<close>

theorem C3_lookup_absent:
  assumes "truthy k" and "\<not> key_present sl k"
  shows "getValue binarySearch sl k = Inr JNull \<and> indexOfKey binarySearch sl k = Inr (- 1)"
proof -
  have "\<forall>x\<in>set (keys sl). comparator sl x k \<noteq> 0"
    using assms(2) by (simp add: key_present_def)
  then have "binarySearch (keys sl) k (comparator sl) < 0" by (rule binarySearch_absent)
  then have m: "max (- 1) (binarySearch (keys sl) k (comparator sl)) = - 1" by simp
  have idx: "indexOfKey binarySearch sl k = Inr (- 1)"
    using assms(1) by (simp add: indexOfKey_def m)
  then show ?thesis using assms(1) by (simp add: getValue_def)
qed

lemma example_default_three_way:
  "three_way_on (range JNum) (comparator (new_SortedList (\<lambda>s. None) None))"
  by (simp add: new_SortedList_def DEFAULT_COMPARATOR_numbers)

lemma example_list_lookups:
  "getValue binarySearch example_list (JNum 2) = Inr (JStr ''b'')"
  "indexOfKey binarySearch example_list (JNum 2) = Inr 1"
  "getValue binarySearch example_list (JNum 3) = Inr JNull"
  "indexOfKey binarySearch example_list (JNum 3) = Inr (- 1)"
  by (simp_all add: getValue_def indexOfKey_def example_list_eq binarySearch_def
      binarySearch_loop.simps array_get_def DEFAULT_COMPARATOR_def Let_def)

text \<open>In the example list the key 2 is at index 1, with the value 'b'.\<close>

theorem C2_getValue_present_witness:
  "truthy (JNum 2) \<and> JNum 2 \<in> set (keys example_list)
   \<and> (\<exists>i<length (keys example_list). i < length (values' example_list)
         \<and> comparator example_list (keys example_list ! i) (JNum 2) = 0
         \<and> ((\<forall>x\<in>set (keys example_list). comparator example_list x (JNum 2) = 0 \<longrightarrow> x = JNum 2)
              \<longrightarrow> keys example_list ! i = JNum 2)
         \<and> indexOfKey binarySearch example_list (JNum 2) = Inr (int i)
         \<and> getValue binarySearch example_list (JNum 2) = Inr (values' example_list ! i))
   \<and> getValue binarySearch example_list (JNum 2) = Inr (JStr ''b'')"
proof -
  have k: "truthy (JNum 2)" by simp
  have m: "JNum 2 \<in> set (keys example_list)" by (simp add: example_list_eq)
  note C2_getValue_present [OF example_default_three_way example_ops_numbers k
      m [unfolded example_list_def], folded example_list_def]
  then show ?thesis using k m by (simp add: example_list_lookups)
qed

text \<open>
  The key 3 was removed from the example list; with the default comparator and number
  keys, a key is present exactly when it is in the keys array.
\<close>

theorem C3_lookup_absent_witness:
  "truthy (JNum 3) \<and> JNum 3 \<notin> set (keys example_list) \<and> \<not> key_present example_list (JNum 3)
   \<and> getValue binarySearch example_list (JNum 3) = Inr JNull
   \<and> indexOfKey binarySearch example_list (JNum 3) = Inr (- 1)"
proof -
  have k: "truthy (JNum 3)" by simp
  have n: "JNum 3 \<notin> set (keys example_list)" by (simp add: example_list_eq)
  have "set (keys example_list) \<subseteq> range JNum" by (simp add: example_list_eq)
  then have a: "\<not> key_present example_list (JNum 3)"
    using n key_present_default_numbers [of example_list "\<lambda>s. None" 3]
    by (simp add: example_list_eq)
  from C3_lookup_absent [OF k a] show ?thesis using k n a by simp
qed

lemma add_values:
  assumes "add sl k v = Inr sl'"
  shows "values' sl' = array_splice (values' sl) (add_loop (comparator sl) k (keys sl) 0) 0 [v]"
  using assms by (auto simp: add_def Let_def split: if_splits)

lemma takeWhile_position:
  fixes P :: "'a \<Rightarrow> bool" and xs :: "'a list"
  defines "p \<equiv> length (takeWhile P xs)"
  shows "p \<le> length xs" and "\<forall>i<p. P (xs ! i)" and "p < length xs \<longrightarrow> \<not> P (xs ! p)"
    and "\<forall>j<length xs. \<not> P (xs ! j) \<longrightarrow> p \<le> j"
proof -
  show "p \<le> length xs" unfolding p_def by (rule length_takeWhile_le)
  show all: "\<forall>i<p. P (xs ! i)"
  proof (intro allI impI)
    fix i assume i: "i < p"
    then have "takeWhile P xs ! i \<in> set (takeWhile P xs)" unfolding p_def by (rule nth_mem)
    then have "P (takeWhile P xs ! i)" by (rule set_takeWhileD [THEN conjunct2])
    then show "P (xs ! i)" using i unfolding p_def by (simp add: takeWhile_nth)
  qed
  show "p < length xs \<longrightarrow> \<not> P (xs ! p)"
    unfolding p_def by (auto dest: nth_length_takeWhile)
  show "\<forall>j<length xs. \<not> P (xs ! j) \<longrightarrow> p \<le> j"
  proof (intro allI impI)
    fix j assume "j < length xs" "\<not> P (xs ! j)"
    then show "p \<le> j" using all by (meson not_le_imp_less)
  qed
qed

text \<open>
  C5. A call \<open>add(key, value)\<close> that returns inserts the pair at the index \<open>p\<close> where the
  linear scan stops: every key before \<open>p\<close> has \<open>comparator(key, keys[i]) > 0\<close>, and \<open>p\<close> is
  the end of the array or \<open>comparator(key, keys[p]) \<le> 0\<close>; so \<open>p\<close> is the smallest such
  index, it is not after any key that compares equal to \<open>key\<close>, the keys and the values
  get the new pair at \<open>p\<close>, and \<open>count\<close> grows by exactly one.
\<close>

theorem C5_add_position:
  assumes "add sl key v = Inr sl'"
  shows "\<exists>p\<le>length (keys sl).
           (\<forall>i<p. comparator sl key (keys sl ! i) > 0)
           \<and> (p < length (keys sl) \<longrightarrow> comparator sl key (keys sl ! p) \<le> 0)
           \<and> (\<forall>j<length (keys sl). comparator sl key (keys sl ! j) = 0 \<longrightarrow> p \<le> j)
           \<and> keys sl' = take p (keys sl) @ key # drop p (keys sl)
           \<and> values' sl' = take p (values' sl) @ v # drop p (values' sl)
           \<and> count_SortedList sl' = count_SortedList sl + 1"
proof -
  let ?P = "\<lambda>x. comparator sl key x > 0"
  define p where "p = length (takeWhile ?P (keys sl))"
  note tp = takeWhile_position [where xs = "keys sl" and P = "\<lambda>x. comparator sl key x > 0", folded p_def]
  have pos: "add_loop (comparator sl) key (keys sl) 0 = p"
    by (simp add: add_position p_def)
  have ks: "keys sl' = take p (keys sl) @ key # drop p (keys sl)"
    using add_result(1) [OF assms]
    by (simp add: p_def takeWhile_eq_take [symmetric] dropWhile_eq_drop [symmetric])
  have vs: "values' sl' = take p (values' sl) @ v # drop p (values' sl)"
    using add_values [OF assms] by (simp add: pos array_splice_def)
  have cnt: "count_SortedList sl' = count_SortedList sl + 1"
    using tp(1) by (simp add: count_SortedList_def ks)
  have eq: "\<forall>j<length (keys sl). comparator sl key (keys sl ! j) = 0 \<longrightarrow> p \<le> j"
    using tp(4) by simp
  have le: "p < length (keys sl) \<longrightarrow> comparator sl key (keys sl ! p) \<le> 0"
    using tp(3) by (auto simp: not_less)
  show ?thesis
    using tp(1) tp(2) le eq ks vs cnt by blast
qed

text \<open>Adding the key 2 again to the example list puts it before the key 2 that is there.\<close>

theorem C5_add_position_witness:
  "add example_list (JNum 2) (JStr ''B'')
     = Inr (example_list\<lparr>keys := [JNum 1, JNum 2, JNum 2],
                         values' := [JStr ''a'', JStr ''B'', JStr ''b'']\<rparr>)
   \<and> (\<exists>p\<le>length (keys example_list).
           (\<forall>i<p. comparator example_list (JNum 2) (keys example_list ! i) > 0)
           \<and> (p < length (keys example_list)
                \<longrightarrow> comparator example_list (JNum 2) (keys example_list ! p) \<le> 0)
           \<and> (\<forall>j<length (keys example_list).
                  comparator example_list (JNum 2) (keys example_list ! j) = 0 \<longrightarrow> p \<le> j)
           \<and> [JNum 1, JNum 2, JNum 2] = take p (keys example_list) @ JNum 2 # drop p (keys example_list)
           \<and> [JStr ''a'', JStr ''B'', JStr ''b'']
               = take p (values' example_list) @ JStr ''B'' # drop p (values' example_list)
           \<and> 3 = count_SortedList example_list + 1)"
proof -
  have a: "add example_list (JNum 2) (JStr ''B'')
     = Inr (example_list\<lparr>keys := [JNum 1, JNum 2, JNum 2],
                         values' := [JStr ''a'', JStr ''B'', JStr ''b'']\<rparr>)"
    by (simp add: add_def Let_def example_list_eq add_loop.simps array_splice_def
        DEFAULT_COMPARATOR_def)
  from C5_add_position [OF a] show ?thesis
    using a by (simp add: count_SortedList_def)
qed

text \<open>
  C4, as stated, fails: \<open>add\<close> with the key 1, which is neither null nor undefined, and
  the value null throws; and \<open>getValue\<close> with the key 0, which is neither null nor
  undefined, throws.
\<close>

theorem C4_throws_on_defined_key:
  "JNum 1 \<noteq> JNull \<and> JNum 1 \<noteq> JUndefined
   \<and> add (new_SortedList (\<lambda>s. None) None) (JNum 1) JNull
       = Inl (Error ''Key and value must be defined.'')
   \<and> JNum 0 \<noteq> JNull \<and> JNum 0 \<noteq> JUndefined
   \<and> getValue binarySearch (new_SortedList (\<lambda>s. None) None) (JNum 0)
       = Inl (Error ''Key must be defined.'')"
  by (simp add: add_def getValue_def)

lemma falsy_values:
  "\<not> truthy x \<longleftrightarrow>
     x = JUndefined \<or> x = JNull \<or> x = JBool False \<or> x = JNum 0 \<or> x = JNaN \<or> x = JStr []"
  by (cases x) auto

text \<open>
  C4, amended. Whatever \<open>Arrays.binarySearch\<close> returns: each of \<open>getValue\<close>,
  \<open>indexOfKey\<close> and \<open>remove\<close> throws ('Key must be defined.') exactly when its key is
  falsy, that is undefined, null, false, 0, NaN or ''; \<open>add\<close> throws ('Key and value must
  be defined.') when its key or its value is falsy, and on arrays that are not full it
  returns otherwise. The comparator and the search are functions that return.
\<close>

theorem C4_failure_modes:
  "(\<not> truthy x \<longleftrightarrow>
      x = JUndefined \<or> x = JNull \<or> x = JBool False \<or> x = JNum 0 \<or> x = JNaN \<or> x = JStr [])
   \<and> (\<not> truthy k \<longrightarrow>
        getValue bsearch sl k = Inl (Error ''Key must be defined.'')
        \<and> indexOfKey bsearch sl k = Inl (Error ''Key must be defined.'')
        \<and> remove_key bsearch sl k = Inl (Error ''Key must be defined.''))
   \<and> (\<not> truthy k \<or> \<not> truthy v \<longrightarrow>
        add sl k v = Inl (Error ''Key and value must be defined.''))
   \<and> (truthy k \<longrightarrow>
        (\<exists>r. getValue bsearch sl k = Inr r) \<and> (\<exists>i. indexOfKey bsearch sl k = Inr i)
        \<and> (\<exists>b sl'. remove_key bsearch sl k = Inr (b, sl')))
   \<and> (truthy k \<and> truthy v \<and> int (length (keys sl)) < 2 ^ 32 - 1
        \<and> int (length (values' sl)) < 2 ^ 32 - 1 \<longrightarrow>
        (\<exists>sl'. add sl k v = Inr sl'))"
proof -
  have falsy_key: "getValue bsearch sl k = Inl (Error ''Key must be defined.'')
      \<and> indexOfKey bsearch sl k = Inl (Error ''Key must be defined.'')
      \<and> remove_key bsearch sl k = Inl (Error ''Key must be defined.'')"
    if "\<not> truthy k"
    using that by (simp add: getValue_def indexOfKey_def remove_key_def)
  have falsy_add: "add sl k v = Inl (Error ''Key and value must be defined.'')"
    if "\<not> truthy k \<or> \<not> truthy v"
    using that by (auto simp: add_def)
  have lookups: "(\<exists>r. getValue bsearch sl k = Inr r) \<and> (\<exists>i. indexOfKey bsearch sl k = Inr i)
        \<and> (\<exists>b sl'. remove_key bsearch sl k = Inr (b, sl'))"
    if "truthy k"
    using that by (auto simp: getValue_def indexOfKey_def remove_key_def)
  have adds: "\<exists>sl'. add sl k v = Inr sl'"
    if "truthy k \<and> truthy v \<and> int (length (keys sl)) < 2 ^ 32 - 1
        \<and> int (length (values' sl)) < 2 ^ 32 - 1"
    using that by (simp add: add_def Let_def)
  show ?thesis using falsy_values [of x] falsy_key falsy_add lookups adds by blast
qed

text \<open>
  Calls on the example list with falsy keys, falsy values, and truthy arguments.
\<close>

theorem C4_failure_modes_witness:
  "getValue binarySearch example_list JUndefined = Inl (Error ''Key must be defined.'')
   \<and> getValue binarySearch example_list (JNum 0) = Inl (Error ''Key must be defined.'')
   \<and> remove_key binarySearch example_list (JStr []) = Inl (Error ''Key must be defined.'')
   \<and> add example_list (JNum 5) JNull = Inl (Error ''Key and value must be defined.'')
   \<and> add example_list (JNum 5) (JBool False) = Inl (Error ''Key and value must be defined.'')
   \<and> truthy (JNum 2) \<and> truthy (JStr ''B'')
   \<and> int (length (keys example_list)) < 2 ^ 32 - 1
   \<and> int (length (values' example_list)) < 2 ^ 32 - 1
   \<and> (\<exists>r. getValue binarySearch example_list (JNum 2) = Inr r)
   \<and> (\<exists>sl'. add example_list (JNum 2) (JStr ''B'') = Inr sl')"
  using C4_failure_modes [of JNull JUndefined binarySearch example_list JNull]
    C4_failure_modes [of JNull "JNum 0" binarySearch example_list JNull]
    C4_failure_modes [of JNull "JStr []" binarySearch example_list JNull]
    C4_failure_modes [of JNull "JNum 5" binarySearch example_list JNull]
    C4_failure_modes [of JNull "JNum 5" binarySearch example_list "JBool False"]
    C4_failure_modes [of JNull "JNum 2" binarySearch example_list "JStr ''B''"]
  by (simp add: example_list_eq)

lemma set_splice_insert: "set (array_splice xs p 0 [x]) \<subseteq> insert x (set xs)"
proof -
  have "set (take p xs) \<subseteq> set xs" by (rule set_take_subset)
  moreover have "set (drop p xs) \<subseteq> set xs" by (rule set_drop_subset)
  ultimately show ?thesis by (auto simp: array_splice_def)
qed

lemma remove_key_values:
  assumes "remove_key bsearch sl k = Inr (b, sl')"
  shows "values' sl' = values' sl \<or> (\<exists>i. values' sl' = array_splice (values' sl) i 1 [])"
  using assms
  by (auto simp: remove_key_def indexOfKey_def split: if_splits)

lemma apply_op_values_truthy:
  assumes "\<forall>x\<in>set (values' sl). truthy x"
  shows "\<forall>x\<in>set (values' (apply_op bsearch sl y)). truthy x"
proof (cases y)
  case (Add k v)
  show ?thesis
  proof (cases "add sl k v")
    case (Inl e)
    then show ?thesis using Add assms by simp
  next
    case (Inr sl')
    have "set (values' sl') \<subseteq> insert v (set (values' sl))"
      unfolding add_values [OF Inr] by (rule set_splice_insert)
    moreover have "truthy v" using Inr by (rule add_result(4))
    ultimately have "\<forall>x\<in>set (values' sl'). truthy x" using assms by blast
    then show ?thesis using Add Inr by simp
  qed
next
  case (Remove k)
  show ?thesis
  proof (cases "remove_key bsearch sl k")
    case (Inl e)
    then show ?thesis using Remove assms by simp
  next
    case (Inr r)
    obtain b sl' where r: "r = (b, sl')" by (cases r)
    have res: "remove_key bsearch sl k = Inr (b, sl')" using Inr r by simp
    from remove_key_values [OF res]
    have "set (values' sl') \<subseteq> set (values' sl)"
    proof
      assume "values' sl' = values' sl"
      then show ?thesis by simp
    next
      assume "\<exists>i. values' sl' = array_splice (values' sl) i 1 []"
      then obtain i where "values' sl' = array_splice (values' sl) i 1 []" ..
      then show ?thesis by (simp only: set_splice_delete)
    qed
    then have "\<forall>x\<in>set (values' sl'). truthy x" using assms by blast
    then show ?thesis using Remove res by simp
  qed
qed

lemma foldl_apply_op_values_truthy:
  "\<forall>x\<in>set (values' sl). truthy x \<Longrightarrow>
   \<forall>x\<in>set (values' (foldl (apply_op bsearch) sl ops)). truthy x"
proof (induction ops arbitrary: sl)
  case Nil
  then show ?case by simp
next
  case (Cons y ys)
  have "\<forall>x\<in>set (values' (apply_op bsearch sl y)). truthy x"
    using Cons.prems by (rule apply_op_values_truthy)
  then have "\<forall>x\<in>set (values' (foldl (apply_op bsearch) (apply_op bsearch sl y) ys)). truthy x"
    by (rule Cons.IH)
  then show ?case by simp
qed

lemma reachable_values_truthy:
  "\<forall>x\<in>set (values' (run_ops bsearch (new_SortedList s2n c) ops)). truthy x"
  unfolding run_ops_def
  by (rule foldl_apply_op_values_truthy) (simp add: new_SortedList_def)

lemma null_iff_not_found:
  fixes s2n :: "string \<Rightarrow> int option" and c :: "comparator_fn option" and ops :: "operation list"
  defines "sl \<equiv> run_ops binarySearch (new_SortedList s2n c) ops"
  assumes k: "truthy k"
  shows "getValue binarySearch sl k = Inr JNull \<longleftrightarrow> indexOfKey binarySearch sl k = Inr (- 1)"
proof -
  define r where "r = binarySearch (keys sl) k (comparator sl)"
  have len: "length (keys sl) = length (values' sl)"
    unfolding sl_def run_ops_def
    by (rule foldl_apply_op_lengths) (simp add: new_SortedList_def)
  have t: "\<forall>x\<in>set (values' sl). truthy x"
    unfolding sl_def by (rule reachable_values_truthy)
  have idx: "indexOfKey binarySearch sl k = Inr (max (- 1) r)"
    using k by (simp add: indexOfKey_def r_def)
  have "r < 0 \<or> (0 \<le> r \<and> r < int (length (keys sl)))"
    using binarySearch_loop_found [of 0 "int (length (keys sl)) - 1" "keys sl" k "comparator sl"]
    unfolding r_def binarySearch_def by auto
  then show ?thesis
  proof
    assume neg: "r < 0"
    then have m: "max (- 1) r = - 1" by simp
    show ?thesis using k by (simp add: getValue_def idx m)
  next
    assume pos: "0 \<le> r \<and> r < int (length (keys sl))"
    then have m: "max (- 1) r = r" by simp
    have nr: "nat r < length (values' sl)" using pos len by linarith
    then have "values' sl ! nat r \<in> set (values' sl)" by (rule nth_mem)
    then have "truthy (values' sl ! nat r)" using t by blast
    then have nn: "values' sl ! nat r \<noteq> JNull" by auto
    have "array_get (values' sl) r = values' sl ! nat r"
      using pos nr by (simp add: array_get_def)
    then have "getValue binarySearch sl k = Inr (values' sl ! nat r)"
      using k pos by (simp add: getValue_def idx m)
    then show ?thesis using nn pos by (simp add: idx m)
  qed
qed

text \<open>
  C9, as stated, fails in its last part: in the list with the keys 2, 1 the key 1 is
  present and \<open>getValue(1)\<close> returns null.
\<close>

theorem C9_null_for_present_key:
  "truthy (JNum 1) \<and> key_present mixed_list (JNum 1)
   \<and> getValue binarySearch mixed_list (JNum 1) = Inr JNull"
  by (simp add: mixed_list_eq mixed_list_lookup key_present_def DEFAULT_COMPARATOR_def)

text \<open>
  C9, amended. \<open>add\<close> throws whenever the value is falsy, so every value stored in a
  list made by the constructor and a sequence of \<open>add\<close> and \<open>remove\<close> calls is truthy.
  Consequently \<open>getValue\<close> of a truthy key \<open>k\<close> returns null exactly when \<open>indexOfKey\<close>
  returns -1, never for a stored value; and when the comparator is a three-way
  comparator on a set of keys that holds the keys that are added and \<open>k\<close> itself, that
  is, if and only if no key of the list compares equal to \<open>k\<close>.
\<close>

theorem C9_no_falsy_value:
  fixes s2n :: "string \<Rightarrow> int option" and c :: "comparator_fn option" and ops :: "operation list"
  defines "sl \<equiv> run_ops binarySearch (new_SortedList s2n c) ops"
  shows "(\<not> truthy v \<longrightarrow> add sl0 k0 v = Inl (Error ''Key and value must be defined.''))
         \<and> (\<forall>x\<in>set (values' sl). truthy x)
         \<and> (truthy k \<longrightarrow>
              (getValue binarySearch sl k = Inr JNull
                 \<longleftrightarrow> indexOfKey binarySearch sl k = Inr (- 1)))
         \<and> (truthy k \<and> k \<in> K \<and> three_way_on K (comparator (new_SortedList s2n c))
              \<and> add_keys_in K ops \<longrightarrow>
              (getValue binarySearch sl k = Inr JNull \<longleftrightarrow> \<not> key_present sl k))"
proof -
  have a: "\<not> truthy v \<longrightarrow> add sl0 k0 v = Inl (Error ''Key and value must be defined.'')"
    by (simp add: add_def)
  have t: "\<forall>x\<in>set (values' sl). truthy x"
    unfolding sl_def by (rule reachable_values_truthy)
  have n: "truthy k \<longrightarrow>
              (getValue binarySearch sl k = Inr JNull
                 \<longleftrightarrow> indexOfKey binarySearch sl k = Inr (- 1))"
    unfolding sl_def by (intro impI null_iff_not_found)
  have p: "getValue binarySearch sl k = Inr JNull \<longleftrightarrow> \<not> key_present sl k"
    if h: "truthy k \<and> k \<in> K \<and> three_way_on K (comparator (new_SortedList s2n c))
              \<and> add_keys_in K ops"
  proof -
    from h have tw: "three_way_on K (comparator (new_SortedList s2n c))"
      and ops: "add_keys_in K ops" and k: "truthy k" "k \<in> K" by simp_all
    note inv = reachable_invariants [OF tw ops, of binarySearch, folded sl_def]
    have tw': "three_way_on K (comparator sl)" using tw inv(1) by simp
    have "getValue binarySearch sl k \<noteq> Inr JNull" if p: "key_present sl k"
    proof -
      from lookup_cases [OF tw' inv(2) inv(3) inv(4) k] p
      obtain i where i: "i < length (keys sl)" "getValue binarySearch sl k = Inr (values' sl ! i)"
        by blast
      have "values' sl ! i \<in> set (values' sl)" using i(1) inv(4) by simp
      then have "truthy (values' sl ! i)" using t by blast
      then have "values' sl ! i \<noteq> JNull" by auto
      then show ?thesis using i(2) by simp
    qed
    moreover have "getValue binarySearch sl k = Inr JNull" if "\<not> key_present sl k"
      using lookup_cases [OF tw' inv(2) inv(3) inv(4) k] that by blast
    ultimately show ?thesis by blast
  qed
  show ?thesis using a t n p by blast
qed

text \<open>The value 0 is refused, and the key 3 is absent from the example list.\<close>

theorem C9_no_falsy_value_witness:
  "truthy (JNum 3) \<and> JNum 3 \<in> range JNum \<and> \<not> truthy (JNum 0)
   \<and> add example_list (JNum 4) (JNum 0) = Inl (Error ''Key and value must be defined.'')
   \<and> values' example_list = [JStr ''a'', JStr ''b''] \<and> truthy (JStr ''a'') \<and> truthy (JStr ''b'')
   \<and> (getValue binarySearch example_list (JNum 3) = Inr JNull
        \<longleftrightarrow> indexOfKey binarySearch example_list (JNum 3) = Inr (- 1))
   \<and> (getValue binarySearch example_list (JNum 3) = Inr JNull
        \<longleftrightarrow> \<not> key_present example_list (JNum 3))
   \<and> getValue binarySearch example_list (JNum 3) = Inr JNull"
proof -
  have k: "truthy (JNum 3)" "JNum 3 \<in> range JNum" by simp_all
  note C9_no_falsy_value [of "JNum 0" example_list "JNum 4" "\<lambda>s. None" None example_ops
      "JNum 3" "range JNum", folded example_list_def]
  then show ?thesis
    using k example_default_three_way example_ops_numbers
    by (simp add: example_list_lookups example_list_eq)
qed

text \<open>The example list has two keys and two values.\<close>

theorem C8_keys_values_same_length_witness:
  "length (keys example_list) = length (values' example_list)
   \<and> count_SortedList example_list = int (length (values' example_list))
   \<and> count_SortedList example_list = 2"
  using C8_keys_values_same_length [of binarySearch "\<lambda>s. None" None example_ops,
      folded example_list_def]
  by (simp add: example_list_eq)


section \<open>Properties of count and countToArray\<close>

lemma round_to_double_safe: "\<bar>x\<bar> \<le> 2 ^ 53 \<Longrightarrow> round_to_double x = x"
  by (simp add: round_to_double_def)

lemma array_push_room: "int (length xs) < 2 ^ 32 - 1 \<Longrightarrow> array_push xs x = Inr (xs @ [x])"
  by (simp add: array_push_def)

lemma array_push_full: "int (length xs) \<ge> 2 ^ 32 - 1 \<Longrightarrow> array_push xs x = Inl RangeError"
  by (simp add: array_push_def)

lemma count_loop_step:
  "cmp i to \<Longrightarrow> f i s = Inr s' \<Longrightarrow>
   count_loop cmp op (Some f) i to s = count_loop cmp op (Some f) (op i) to s'"
  by (subst count_loop.simps) simp

lemma count_loop_throw:
  "cmp i to \<Longrightarrow> f i s = Inl e \<Longrightarrow> count_loop cmp op (Some f) i to s = Some (Inl e)"
  by (subst count_loop.simps) simp

lemma count_loop_stop: "\<not> cmp i to \<Longrightarrow> count_loop cmp op callback i to s = Some (Inr s)"
  by (subst count_loop.simps) simp

lemma count_loop_up:
  "i \<le> to \<Longrightarrow> - (2 ^ 53) \<le> i \<Longrightarrow> to \<le> 2 ^ 53 \<Longrightarrow>
   int (length acc) + (to - i) \<le> 2 ^ 32 - 1 \<Longrightarrow>
   count_loop (\<lambda>a b. a < b) (\<lambda>i. js_add i 1) (Some (\<lambda>i result. array_push result i)) i to acc
     = Some (Inr (acc @ [i..to - 1]))"
proof (induction "nat (to - i)" arbitrary: i acc)
  case 0
  then have "i = to" by simp
  then show ?case by (simp add: count_loop_stop)
next
  case (Suc n)
  then have lt: "i < to" by linarith
  have step: "js_add i 1 = i + 1"
    unfolding js_add_def using lt Suc.prems by (intro round_to_double_safe) linarith
  have room: "array_push acc i = Inr (acc @ [i])"
    using lt Suc.prems(4) by (intro array_push_room) linarith
  have "count_loop (\<lambda>a b. a < b) (\<lambda>i. js_add i 1) (Some (\<lambda>i result. array_push result i))
          (i + 1) to (acc @ [i])
          = Some (Inr ((acc @ [i]) @ [i + 1..to - 1]))"
    using Suc.hyps(2) lt Suc.prems by (intro Suc.hyps(1)) auto
  moreover have "[i..to - 1] = i # [i + 1..to - 1]"
    using lt by (intro upto_rec1) simp
  moreover have "count_loop (\<lambda>a b. a < b) (\<lambda>i. js_add i 1) (Some (\<lambda>i result. array_push result i)) i to acc
      = count_loop (\<lambda>a b. a < b) (\<lambda>i. js_add i 1) (Some (\<lambda>i result. array_push result i))
          (js_add i 1) to (acc @ [i])"
    using lt room by (intro count_loop_step) simp_all
  ultimately show ?case by (simp add: step)
qed

lemma count_loop_up_overflow:
  "i \<le> to \<Longrightarrow> - (2 ^ 53) \<le> i \<Longrightarrow> to \<le> 2 ^ 53 \<Longrightarrow>
   int (length acc) \<le> 2 ^ 32 - 1 \<Longrightarrow> int (length acc) + (to - i) > 2 ^ 32 - 1 \<Longrightarrow>
   count_loop (\<lambda>a b. a < b) (\<lambda>i. js_add i 1) (Some (\<lambda>i result. array_push result i)) i to acc
     = Some (Inl RangeError)"
proof (induction "nat (to - i)" arbitrary: i acc)
  case 0
  then show ?case by linarith
next
  case (Suc n)
  then have lt: "i < to" by linarith
  have step: "js_add i 1 = i + 1"
    unfolding js_add_def using lt Suc.prems by (intro round_to_double_safe) linarith
  show ?case
  proof (cases "int (length acc) < 2 ^ 32 - 1")
    case True
    then have room: "array_push acc i = Inr (acc @ [i])" by (rule array_push_room)
    have "count_loop (\<lambda>a b. a < b) (\<lambda>i. js_add i 1) (Some (\<lambda>i result. array_push result i))
            (i + 1) to (acc @ [i]) = Some (Inl RangeError)"
      using Suc.hyps(2) lt Suc.prems True by (intro Suc.hyps(1)) auto
    moreover have "count_loop (\<lambda>a b. a < b) (\<lambda>i. js_add i 1) (Some (\<lambda>i result. array_push result i)) i to acc
        = count_loop (\<lambda>a b. a < b) (\<lambda>i. js_add i 1) (Some (\<lambda>i result. array_push result i))
            (js_add i 1) to (acc @ [i])"
      using lt room by (intro count_loop_step) simp_all
    ultimately show ?thesis by (simp add: step)
  next
    case False
    then have "array_push acc i = Inl RangeError" by (intro array_push_full) simp
    then show ?thesis using lt by (intro count_loop_throw) simp_all
  qed
qed

lemma count_loop_down:
  "to \<le> i \<Longrightarrow> - (2 ^ 53) \<le> to \<Longrightarrow> i \<le> 2 ^ 53 \<Longrightarrow>
   int (length acc) + (i - to) \<le> 2 ^ 32 - 1 \<Longrightarrow>
   count_loop (\<lambda>a b. a > b) (\<lambda>i. js_sub i 1) (Some (\<lambda>i result. array_push result i)) i to acc
     = Some (Inr (acc @ rev [to + 1..i]))"
proof (induction "nat (i - to)" arbitrary: i acc)
  case 0
  then have "i = to" by simp
  then show ?case by (simp add: count_loop_stop)
next
  case (Suc n)
  then have lt: "to < i" by linarith
  have step: "js_sub i 1 = i - 1"
    unfolding js_sub_def using lt Suc.prems by (intro round_to_double_safe) linarith
  have room: "array_push acc i = Inr (acc @ [i])"
    using lt Suc.prems(4) by (intro array_push_room) linarith
  have "count_loop (\<lambda>a b. a > b) (\<lambda>i. js_sub i 1) (Some (\<lambda>i result. array_push result i))
          (i - 1) to (acc @ [i])
          = Some (Inr ((acc @ [i]) @ rev [to + 1..i - 1]))"
    using Suc.hyps(2) lt Suc.prems by (intro Suc.hyps(1)) auto
  moreover have "[to + 1..i] = [to + 1..i - 1] @ [i]"
    using lt by (intro upto_rec2) simp
  moreover have "count_loop (\<lambda>a b. a > b) (\<lambda>i. js_sub i 1) (Some (\<lambda>i result. array_push result i)) i to acc
      = count_loop (\<lambda>a b. a > b) (\<lambda>i. js_sub i 1) (Some (\<lambda>i result. array_push result i))
          (js_sub i 1) to (acc @ [i])"
    using lt room by (intro count_loop_step) simp_all
  ultimately show ?case by (simp add: step)
qed

lemma js_add_2_53: "js_add (2 ^ 53) 1 = 2 ^ 53"
  by (simp add: js_add_def round_to_double_def Let_def bit_length.simps)

lemma js_add_2_53_numeral: "js_add 9007199254740992 1 = 9007199254740992"
  using js_add_2_53 by simp

lemma count_loop_stuck:
  "int (length acc) \<le> 2 ^ 32 - 1 \<Longrightarrow>
   count_loop (\<lambda>a b. a < b) (\<lambda>i. js_add i 1) (Some (\<lambda>i result. array_push result i))
     (2 ^ 53) (2 ^ 53 + 2) acc = Some (Inl RangeError)"
proof (induction "nat (2 ^ 32 - 1 - int (length acc))" arbitrary: acc)
  case 0
  then have "array_push acc (2 ^ 53) = Inl RangeError" by (intro array_push_full) simp
  then show ?case by (intro count_loop_throw) simp_all
next
  case (Suc n)
  then have "int (length acc) < 2 ^ 32 - 1" by linarith
  then have room: "array_push acc (2 ^ 53) = Inr (acc @ [2 ^ 53])" by (rule array_push_room)
  have "count_loop (\<lambda>a b. a < b) (\<lambda>i. js_add i 1) (Some (\<lambda>i result. array_push result i))
          (2 ^ 53) (2 ^ 53 + 2) (acc @ [2 ^ 53]) = Some (Inl RangeError)"
    using Suc.hyps(2) Suc.prems by (intro Suc.hyps(1)) auto
  moreover have "count_loop (\<lambda>a b. a < b) (\<lambda>i. js_add i 1) (Some (\<lambda>i result. array_push result i))
          (2 ^ 53) (2 ^ 53 + 2) acc
      = count_loop (\<lambda>a b. a < b) (\<lambda>i. js_add i 1) (Some (\<lambda>i result. array_push result i))
          (js_add (2 ^ 53) 1) (2 ^ 53 + 2) (acc @ [2 ^ 53])"
    using room by (intro count_loop_step) simp_all
  ultimately show ?case by (simp add: js_add_2_53_numeral)
qed

lemma countToArray_safe:
  assumes "\<bar>from\<bar> \<le> 2 ^ 53" "\<bar>to\<bar> \<le> 2 ^ 53" "\<bar>to - from\<bar> \<le> 2 ^ 32 - 1"
  shows "countToArray from (Some to)
           = Some (Inr (if from \<le> to then [from..to - 1] else rev [to + 1..from]))"
proof (cases "from \<le> to")
  case True
  then show ?thesis
    using assms count_loop_up [of "from" to "[]"]
    by (simp add: countToArray_def count_def)
next
  case False
  then show ?thesis
    using assms count_loop_down [of to "from" "[]"]
    by (simp add: countToArray_def count_def)
qed

lemma countToArray_too_long: "countToArray 0 (Some (2 ^ 32)) = Some (Inl RangeError)"
  using count_loop_up_overflow [of 0 "2 ^ 32" "[]"]
  by (simp add: countToArray_def count_def)

lemma countToArray_stuck: "countToArray (2 ^ 53) (Some (2 ^ 53 + 2)) = Some (Inl RangeError)"
  using count_loop_stuck [of "[]"]
  by (simp add: countToArray_def count_def)

lemma countToArray_one_argument: "countToArray to None = countToArray 0 (Some to)"
  by (simp add: countToArray_def count_def)

lemma upto_sequence:
  "length [i..j - 1] = nat (j - i) \<and> (\<forall>k<nat (j - i). [i..j - 1] ! k = i + int k)"
  by (auto simp: nth_upto)

lemma downto_sequence:
  "length (rev [j + 1..i]) = nat (i - j) \<and> (\<forall>k<nat (i - j). rev [j + 1..i] ! k = i - int k)"
proof (intro conjI allI impI)
  show len: "length (rev [j + 1..i]) = nat (i - j)" by simp
  fix k assume k: "k < nat (i - j)"
  have "rev [j + 1..i] ! k = [j + 1..i] ! (nat (i - j) - Suc k)"
    using k by (simp add: rev_nth)
  also have "\<dots> = j + 1 + int (nat (i - j) - Suc k)"
    using k by (intro nth_upto) linarith
  also have "\<dots> = i - int k" using k by linarith
  finally show "rev [j + 1..i] ! k = i - int k" .
qed

text \<open>
  C10, as stated, fails for integers of which the result does not fit an array, and
  for integers above \<open>2^53\<close>. \<open>countToArray(0, 2^32)\<close> throws a RangeError at the push
  number \<open>2^32\<close>. \<open>2^53\<close> and \<open>2^53 + 2\<close> are integers (and doubles), and \<open>2^53 + 1\<close> is
  \<open>2^53\<close> in the language's arithmetic: in \<open>countToArray(2^53, 2^53 + 2)\<close> the index never
  changes, and the call throws a RangeError once the array is full.
\<close>

theorem C10_countToArray_throws:
  "countToArray 0 (Some 4294967296) = Some (Inl RangeError)
   \<and> countToArray 9007199254740992 (Some 9007199254740994) = Some (Inl RangeError)"
  using countToArray_too_long countToArray_stuck by simp

text \<open>
  C10, amended. For integers \<open>from\<close> and \<open>to\<close> of magnitude at most \<open>2^53\<close> that are at most
  \<open>2^32 - 1\<close> apart, \<open>countToArray(from, to)\<close> returns the consecutive integers from
  \<open>from\<close>, stepping by +1 when \<open>from \<le> to\<close> and by -1 otherwise, \<open>to\<close> excluded: its length
  is \<open>|to - from|\<close> and its \<open>k\<close>-th element is \<open>from + k\<close> or \<open>from - k\<close>. The one-argument
  form \<open>countToArray(to)\<close> is \<open>countToArray(0, to)\<close>.
\<close>

theorem C10_countToArray:
  assumes "\<bar>from\<bar> \<le> 2 ^ 53" and "\<bar>to\<bar> \<le> 2 ^ 53" and "\<bar>to - from\<bar> \<le> 2 ^ 32 - 1"
  shows "(\<exists>xs. countToArray from (Some to) = Some (Inr xs)
            \<and> xs = (if from \<le> to then [from..to - 1] else rev [to + 1..from])
            \<and> int (length xs) = \<bar>to - from\<bar>
            \<and> (\<forall>k<length xs. xs ! k = (if from \<le> to then from + int k else from - int k))
            \<and> to \<notin> set xs)
         \<and> countToArray to None = countToArray 0 (Some to)"
proof -
  define xs where "xs = (if from \<le> to then [from..to - 1] else rev [to + 1..from])"
  have r: "countToArray from (Some to) = Some (Inr xs)"
    unfolding xs_def using assms by (rule countToArray_safe)
  have len: "int (length xs) = \<bar>to - from\<bar>"
    by (simp add: xs_def)
  have nth: "\<forall>k<length xs. xs ! k = (if from \<le> to then from + int k else from - int k)"
  proof (cases "from \<le> to")
    case True
    then show ?thesis using upto_sequence [of "from" to] by (simp add: xs_def)
  next
    case False
    then show ?thesis using downto_sequence [of to "from"] by (simp add: xs_def)
  qed
  have ex: "to \<notin> set xs" by (simp add: xs_def)
  show ?thesis using r len nth ex countToArray_one_argument [of to] xs_def by blast
qed

text \<open>Counting from 2 up to 5, from 5 down to 2, and up to 3 from 0.\<close>

theorem C10_countToArray_witness:
  "\<bar>2::int\<bar> \<le> 2 ^ 53 \<and> \<bar>5::int\<bar> \<le> 2 ^ 53 \<and> \<bar>5 - 2::int\<bar> \<le> 2 ^ 32 - 1
   \<and> countToArray 2 (Some 5) = Some (Inr [2, 3, 4])
   \<and> countToArray 5 (Some 2) = Some (Inr [5, 4, 3])
   \<and> countToArray 3 None = Some (Inr [0, 1, 2])"
proof -
  have b: "\<bar>2::int\<bar> \<le> 2 ^ 53" "\<bar>5::int\<bar> \<le> 2 ^ 53" "\<bar>0::int\<bar> \<le> 2 ^ 53" "\<bar>3::int\<bar> \<le> 2 ^ 53"
    by simp_all
  have d: "\<bar>5 - 2::int\<bar> \<le> 2 ^ 32 - 1" "\<bar>2 - 5::int\<bar> \<le> 2 ^ 32 - 1" "\<bar>3 - 0::int\<bar> \<le> 2 ^ 32 - 1"
    by simp_all
  have u: "[2..5 - 1] = [2, 3, 4::int]" "[2 + 1..5] = [3, 4, 5::int]" "[0..3 - 1] = [0, 1, 2::int]"
    by (simp_all add: upto.simps)
  from C10_countToArray [OF b(1) b(2) d(1)] C10_countToArray [OF b(2) b(1) d(2)]
    C10_countToArray [OF b(3) b(4) d(3)]
  show ?thesis using b d u by simp
qed

section \<open>Properties of the merged provider results\<close>

lemma merged_results_append:
  "merged_results (xs @ ys) q = merged_results ys q @ merged_results xs q"
  by (simp add: merged_results_def)

lemma merged_results_single: "merged_results [p] q = provider_results p q"
  by (simp add: merged_results_def)

lemma provider_fails_results: "provider_fails p q \<Longrightarrow> provider_results p q = []"
  by (cases "p q") (simp_all add: provider_fails_def provider_results_def)

lemma merged_results_filter:
  "merged_results (filter (\<lambda>p. \<not> provider_fails p q) reg) q = merged_results reg q"
proof (induction reg rule: rev_induct)
  case Nil
  show ?case by simp
next
  case (snoc p reg)
  show ?case
  proof (cases "provider_fails p q")
    case True
    then have "merged_results (filter (\<lambda>p. \<not> provider_fails p q) (reg @ [p])) q
                 = merged_results (filter (\<lambda>p. \<not> provider_fails p q) reg) q"
      by simp
    also have "\<dots> = merged_results reg q" by (rule snoc.IH)
    also have "\<dots> = merged_results (reg @ [p]) q"
      using True by (simp add: merged_results_append merged_results_single provider_fails_results)
    finally show ?thesis .
  next
    case False
    then have "merged_results (filter (\<lambda>p. \<not> provider_fails p q) (reg @ [p])) q
                 = merged_results (filter (\<lambda>p. \<not> provider_fails p q) reg @ [p]) q"
      by simp
    also have "\<dots> = merged_results [p] q @ merged_results (filter (\<lambda>p. \<not> provider_fails p q) reg) q"
      by (rule merged_results_append)
    also have "\<dots> = merged_results [p] q @ merged_results reg q"
      by (simp only: snoc.IH)
    also have "\<dots> = merged_results (reg @ [p]) q"
      by (rule merged_results_append [symmetric])
    finally show ?thesis .
  qed
qed

lemma merged_results_Cons:
  "merged_results (p # ps) q = merged_results ps q @ provider_results p q"
  by (simp add: merged_results_def)

lemma merged_results_set:
  "set (merged_results reg q) = (\<Union>p\<in>set reg. set (provider_results p q))"
  by (simp add: merged_results_def)

lemma provider_results_Inr: "p q = Inr rs \<Longrightarrow> provider_results p q = rs"
  by (simp add: provider_results_def)

lemma provider_results_mem:
  "r \<in> set (provider_results p q) \<Longrightarrow> \<exists>rs. p q = Inr rs \<and> r \<in> set rs"
  by (cases "p q") (simp_all add: provider_results_def)

text \<open>
  C6. For a request merged over the registered providers, a provider whose callable
  throws contributes nothing and every other provider's results are included: the
  merged result is the merge of the providers that do not fail, it contains the
  results of every provider that returns, and nothing else.
\<close>

theorem C6_failing_provider_dropped:
  "merged_results reg q = merged_results (filter (\<lambda>p. \<not> provider_fails p q) reg) q
   \<and> (\<forall>p\<in>set reg. \<forall>rs. p q = Inr rs \<longrightarrow> set rs \<subseteq> set (merged_results reg q))
   \<and> (\<forall>r\<in>set (merged_results reg q). \<exists>p\<in>set reg. \<exists>rs. p q = Inr rs \<and> r \<in> set rs)"
proof -
  have dropped: "merged_results reg q = merged_results (filter (\<lambda>p. \<not> provider_fails p q) reg) q"
    by (rule merged_results_filter [symmetric])
  have included: "set rs \<subseteq> set (merged_results reg q)" if p: "p \<in> set reg" "p q = Inr rs" for p rs
  proof -
    have rs: "provider_results p q = rs" using p(2) by (rule provider_results_Inr)
    have "set (provider_results p q) \<subseteq> (\<Union>p\<in>set reg. set (provider_results p q))"
      using p(1) by (rule UN_upper [of p "set reg" "\<lambda>p. set (provider_results p q)"])
    then show ?thesis by (simp only: merged_results_set rs)
  qed
  have only: "\<exists>p\<in>set reg. \<exists>rs. p q = Inr rs \<and> r \<in> set rs"
    if r: "r \<in> set (merged_results reg q)" for r
  proof -
    from r have "r \<in> (\<Union>p\<in>set reg. set (provider_results p q))"
      by (simp only: merged_results_set)
    then obtain p where p: "p \<in> set reg" "r \<in> set (provider_results p q)" by (rule UN_E)
    from p(2) have "\<exists>rs. p q = Inr rs \<and> r \<in> set rs" by (rule provider_results_mem)
    then show ?thesis
      using p(1) by (rule bexI [of "\<lambda>p. \<exists>rs. p q = Inr rs \<and> r \<in> set rs" p "set reg"])
  qed
  show ?thesis
  proof (intro conjI ballI allI impI)
    show "merged_results reg q = merged_results (filter (\<lambda>p. \<not> provider_fails p q) reg) q"
      by (rule dropped)
  next
    fix p rs assume "p \<in> set reg" "p q = Inr rs"
    then show "set rs \<subseteq> set (merged_results reg q)" by (rule included)
  next
    fix r assume "r \<in> set (merged_results reg q)"
    then show "\<exists>p\<in>set reg. \<exists>rs. p q = Inr rs \<and> r \<in> set rs" by (rule only)
  qed
qed

lemma example_evil:
  "merged_results (register_provider (register_provider [] evil_provider) second_provider) ()
     = [''second'']"
  "filter (\<lambda>p. \<not> provider_fails p ()) (register_provider (register_provider [] evil_provider) second_provider)
     = [second_provider]"
  by (simp_all add: register_provider_def merged_results_def provider_results_def provider_fails_def
      evil_provider_def second_provider_def)

text \<open>The test 'Definition, evil provider': one result, that of the second provider.\<close>

theorem C6_failing_provider_dropped_witness:
  "merged_results (register_provider (register_provider [] evil_provider) second_provider) ()
     = [''second'']
   \<and> merged_results (register_provider (register_provider [] evil_provider) second_provider) ()
     = merged_results [second_provider] ()"
  using C6_failing_provider_dropped
    [of "register_provider (register_provider [] evil_provider) second_provider" "()",
     THEN conjunct1]
  by (simp only: example_evil)

text \<open>
  C7. In the merged result the results of a provider registered later come before
  the results of every provider registered earlier; with two providers the merged
  result is the later one's results followed by the earlier one's.
\<close>

theorem C7_registration_order:
  "(\<forall>i j. i < j \<and> j < length reg \<longrightarrow>
      (\<exists>before between after.
         merged_results reg q
           = before @ provider_results (reg ! j) q @ between @ provider_results (reg ! i) q @ after))
   \<and> merged_results (register_provider (register_provider [] p1) p2) q
       = provider_results p2 q @ provider_results p1 q"
proof (intro conjI allI impI)
  fix i j assume ij: "i < j \<and> j < length reg"
  have r1: "reg = take j reg @ reg ! j # drop (Suc j) reg"
    using ij by (simp add: id_take_nth_drop)
  have "i < length (take j reg)" using ij by simp
  then have "take j reg = take i (take j reg) @ take j reg ! i # drop (Suc i) (take j reg)"
    by (rule id_take_nth_drop)
  then have r2: "take j reg = take i (take j reg) @ reg ! i # drop (Suc i) (take j reg)"
    using ij by simp
  have "merged_results reg q
          = merged_results (take j reg @ reg ! j # drop (Suc j) reg) q"
    using r1 by simp
  also have "\<dots> = merged_results (drop (Suc j) reg) q @ provider_results (reg ! j) q
                 @ merged_results (take j reg) q"
    by (simp only: merged_results_append merged_results_Cons append_assoc)
  also have "merged_results (take j reg) q
               = merged_results (take i (take j reg) @ reg ! i # drop (Suc i) (take j reg)) q"
    using r2 by simp
  also have "\<dots> = merged_results (drop (Suc i) (take j reg)) q @ provider_results (reg ! i) q
                 @ merged_results (take i (take j reg)) q"
    by (simp only: merged_results_append merged_results_Cons append_assoc)
  finally show "\<exists>before between after.
         merged_results reg q
           = before @ provider_results (reg ! j) q @ between @ provider_results (reg ! i) q @ after"
    by blast
next
  show "merged_results (register_provider (register_provider [] p1) p2) q
       = provider_results p2 q @ provider_results p1 q"
    by (simp add: register_provider_def merged_results_def)
qed

lemma example_order:
  "merged_results (register_provider (register_provider [] first_provider) second_provider) ()
     = [''second'', ''first'']"
  "provider_results first_provider () = [''first'']"
  "provider_results second_provider () = [''second'']"
  by (simp_all add: register_provider_def merged_results_def provider_results_def
      first_provider_def second_provider_def)

text \<open>The test 'Definition, registration order': 'second' comes before 'first'.\<close>

theorem C7_registration_order_witness:
  "merged_results (register_provider (register_provider [] first_provider) second_provider) ()
     = provider_results second_provider () @ provider_results first_provider ()
   \<and> merged_results (register_provider (register_provider [] first_provider) second_provider) ()
     = [''second'', ''first'']"
  using C7_registration_order [of "[]" "()" first_provider second_provider, THEN conjunct2]
  by (simp only: example_order)

end
